theory Spec2Isabelle
  imports Complex_Main "HOL-Library.Product_Lexorder" "HOL-Library.Multiset"
begin

section \<open>Data model\<close>

text \<open>
  The planner page (the auto-plan rule engine and \<open>applyAction\<close>) and the apply route are
  embedded as pure functions. Minutes and hours are integers: the forms and the action schema
  only produce integral values, and on integers \<open>Math.round\<close> is the identity. The two
  effects of the source are made explicit: \<open>uid\<close> draws from a stream of (random, clock)
  strings, and \<open>scoreTask\<close>, which reads the clock and computes in floating point, is a
  parameter of the scheduler. Scores are real numbers: a due date that does not parse, whose
  score is \<open>NaN\<close>, is outside the model.
\<close>

datatype Day = Mon | Tue | Wed | Thu | Fri | Sat | Sun

definition DAYS :: "Day list" where
  "DAYS = [Mon, Tue, Wed, Thu, Fri, Sat, Sun]"

text \<open>\<open>DAYS.indexOf(day)\<close>.\<close>

fun dayIndex :: "Day \<Rightarrow> nat" where
  "dayIndex Mon = 0"
| "dayIndex Tue = 1"
| "dayIndex Wed = 2"
| "dayIndex Thu = 3"
| "dayIndex Fri = 4"
| "dayIndex Sat = 5"
| "dayIndex Sun = 6"

datatype TaskPriority = low | medium | high

record Preferences =
  workBlockMins :: int
  maxBlocksPerDay :: int
  startHour :: int
  endHour :: int

record BusyBlock =
  b_id :: string
  b_day :: Day
  b_startMin :: int
  b_endMin :: int
  b_label :: string

record PlannedBlock =
  p_id :: string
  p_day :: Day
  p_startMin :: int
  p_endMin :: int
  p_type :: string
  p_taskId :: "string option"
  p_label :: "string option"

record Task =
  t_id :: string
  t_title :: string
  t_dueDate :: string
  t_priority :: TaskPriority
  t_estimateMins :: int
  t_done :: bool
  t_createdAt :: int
  t_spentMins :: "int option"

text \<open>A free interval \<open>{start, end}\<close> of the grid.\<close>

record Slot =
  s_start :: int
  s_end :: int

text \<open>An element of \<open>units\<close> in \<open>autoPlan\<close>.\<close>

record WorkUnit =
  u_taskId :: string
  u_label :: string
  u_mins :: int
  u_score :: real

section \<open>Identities\<close>

text \<open>
  \<open>uid(prefix)\<close> joins the prefix, the hexadecimal digits of \<open>Math.random()\<close> and those of
  \<open>Date.now()\<close>. The two strings a call draws are its second argument.
\<close>

definition uid :: "string \<Rightarrow> string \<times> string \<Rightarrow> string" where
  "uid prefix e = prefix @ ''_'' @ fst e @ ''_'' @ snd e"

definition clamp :: "int \<Rightarrow> int \<Rightarrow> int \<Rightarrow> int" where
  "clamp n a b = max a (min b n)"

section \<open>The free grid\<close>

text \<open>The body of the loop over \<open>slots\<close>: what one busy block leaves of one slot.\<close>

definition cutSlot :: "BusyBlock \<Rightarrow> Slot \<Rightarrow> Slot list" where
  "cutSlot b s =
     (if b_endMin b \<le> s_start s \<or> b_startMin b \<ge> s_end s then [s]
      else (if b_startMin b > s_start s then [\<lparr>s_start = s_start s, s_end = b_startMin b\<rparr>] else [])
         @ (if b_endMin b < s_end s then [\<lparr>s_start = b_endMin b, s_end = s_end s\<rparr>] else []))"

text \<open>
  One round of the loop over \<open>busyBlocks\<close>: \<open>cutDay b slots\<close> is the new value of
  \<open>free[b.day]\<close>. The comparator \<open>a.start - b2.start\<close> of the (stable) sort is the key
  \<open>s_start\<close> of the stable insertion sort \<open>sort_key\<close>.
\<close>

definition cutDay :: "BusyBlock \<Rightarrow> Slot list \<Rightarrow> Slot list" where
  "cutDay b slots =
     (let next = concat (map (cutSlot b) slots)
      in sort_key s_start (filter (\<lambda>x. s_end x - s_start x \<ge> 15) next))"

definition subtractBusy :: "(Day \<Rightarrow> Slot list) \<Rightarrow> BusyBlock \<Rightarrow> (Day \<Rightarrow> Slot list)" where
  "subtractBusy free b = free(b_day b := cutDay b (free (b_day b)))"

definition buildFreeGrid :: "Preferences \<Rightarrow> BusyBlock list \<Rightarrow> (Day \<Rightarrow> Slot list)" where
  "buildFreeGrid preferences busyBlocks =
     (let start = startHour preferences * 60;
          end = endHour preferences * 60
      in foldl subtractBusy (\<lambda>d. [\<lparr>s_start = start, s_end = end\<rparr>]) busyBlocks)"

section \<open>Work units\<close>

text \<open>Decimal digits of a number, as a template literal prints it.\<close>

fun decimal :: "nat \<Rightarrow> string" where
  "decimal n =
     (if n < 10 then [''0123456789'' ! n] else decimal (n div 10) @ [''0123456789'' ! (n mod 10)])"

declare decimal.simps [simp del]

text \<open>
  The units of one task. With a block size of 0 the quotient is \<open>Infinity\<close>, so is \<open>parts\<close>,
  and the loop over the parts never ends: the result is \<open>None\<close>.
\<close>

definition taskUnits :: "(Task \<Rightarrow> real) \<Rightarrow> int \<Rightarrow> Task \<Rightarrow> WorkUnit list option" where
  "taskUnits scoreTask block t =
     (if t_done t then Some []
      else let remaining = max 0 (t_estimateMins t) in
        if remaining \<le> 0 then Some []
        else if block = 0 then None
        else let parts = max 1 \<lceil>real_of_int remaining / real_of_int block\<rceil> in
          Some (map (\<lambda>i.
              let mins = (if int i = parts - 1 then remaining - block * (parts - 1) else block)
              in \<lparr>u_taskId = t_id t,
                  u_label = (if parts = 1 then t_title t
                             else t_title t @ '' (Part '' @ decimal (i + 1) @ ''/'' @ decimal (nat parts) @ '')''),
                  u_mins = max 15 (round (real_of_int mins)),
                  u_score = scoreTask t\<rparr>)
            [0 ..< nat parts]))"

fun expandTasks :: "(Task \<Rightarrow> real) \<Rightarrow> int \<Rightarrow> Task list \<Rightarrow> WorkUnit list option" where
  "expandTasks scoreTask block [] = Some []"
| "expandTasks scoreTask block (t # ts) =
     (case taskUnits scoreTask block t of
        None \<Rightarrow> None
      | Some us \<Rightarrow> map_option ((@) us) (expandTasks scoreTask block ts))"

section \<open>The scheduler\<close>

text \<open>The mutable state of the placement loops of \<open>autoPlan\<close>.\<close>

record PlanState =
  free :: "Day \<Rightarrow> Slot list"
  dailyCount :: "Day \<Rightarrow> int"
  planned :: "PlannedBlock list"

text \<open>The index \<open>si\<close> at which the loop over \<open>segs\<close> first finds a slot long enough.\<close>

primrec firstFit :: "int \<Rightarrow> Slot list \<Rightarrow> nat option" where
  "firstFit mins [] = None"
| "firstFit mins (s # segs) =
     (if s_end s - s_start s \<ge> mins then Some 0 else map_option Suc (firstFit mins segs))"

text \<open>
  The loop over \<open>segs\<close> for one unit on one day: place the unit at the start of the first
  slot that is long enough, replace the slot by what remains of it (\<open>splice\<close>), and drop
  the slots under 15 minutes. \<open>rnd k\<close> is what the \<open>k\<close>-th call of \<open>uid\<close> draws.
\<close>

definition placeOnDay :: "(nat \<Rightarrow> string \<times> string) \<Rightarrow> WorkUnit \<Rightarrow> Day \<Rightarrow> PlanState \<Rightarrow> PlanState" where
  "placeOnDay rnd u day st =
     (let segs = free st day in
      case firstFit (u_mins u) segs of
        None \<Rightarrow> st
      | Some si \<Rightarrow>
          let s = segs ! si;
              startMin = s_start s;
              endMin = startMin + u_mins u;
              nextSegs = (if endMin < s_end s then [\<lparr>s_start = endMin, s_end = s_end s\<rparr>] else []);
              segs' = take si segs @ nextSegs @ drop (Suc si) segs
          in st\<lparr>planned := planned st @
                  [\<lparr>p_id = uid ''plan'' (rnd (length (planned st))), p_day = day,
                    p_startMin = startMin, p_endMin = endMin, p_type = ''plan'',
                    p_taskId = Some (u_taskId u), p_label = Some (u_label u)\<rparr>],
                dailyCount := (dailyCount st)(day := dailyCount st day + 1),
                free := (free st)(day := filter (\<lambda>x. s_end x - s_start x \<ge> 15) segs')\<rparr>)"

text \<open>
  The loop over the days for one unit: a day at its cap is skipped (\<open>continue\<close>); after a
  day was tried the loop ends as soon as some planned block carries the unit's task id and
  label.
\<close>

fun placeUnit :: "(nat \<Rightarrow> string \<times> string) \<Rightarrow> int \<Rightarrow> WorkUnit \<Rightarrow> Day list \<Rightarrow> PlanState \<Rightarrow> PlanState" where
  "placeUnit rnd cap u [] st = st"
| "placeUnit rnd cap u (day # days) st =
     (if dailyCount st day \<ge> cap then placeUnit rnd cap u days st
      else let st' = placeOnDay rnd u day st in
        if list_ex (\<lambda>p. p_taskId p = Some (u_taskId u) \<and> p_label p = Some (u_label u)) (planned st')
        then st'
        else placeUnit rnd cap u days st')"

definition initialState :: "Preferences \<Rightarrow> BusyBlock list \<Rightarrow> PlanState" where
  "initialState preferences busyBlocks =
     \<lparr>free = buildFreeGrid preferences busyBlocks, dailyCount = (\<lambda>d. 0), planned = []\<rparr>"

text \<open>The loop over the sorted units.\<close>

definition placeAll :: "(nat \<Rightarrow> string \<times> string) \<Rightarrow> int \<Rightarrow> WorkUnit list \<Rightarrow> PlanState \<Rightarrow> PlanState" where
  "placeAll rnd cap units st = foldl (\<lambda>st u. placeUnit rnd cap u DAYS st) st units"

text \<open>
  The units are sorted by descending score and the planned blocks by day, then start; both
  sorts are stable, as \<open>sort_key\<close> is. The result is \<open>None\<close> when the expansion of the tasks
  does not end.
\<close>

definition sortUnits :: "WorkUnit list \<Rightarrow> WorkUnit list" where
  "sortUnits units = sort_key (\<lambda>u. - u_score u) units"

definition sortPlanned :: "PlannedBlock list \<Rightarrow> PlannedBlock list" where
  "sortPlanned ps = sort_key (\<lambda>p. (dayIndex (p_day p), p_startMin p)) ps"

definition autoPlan ::
  "(nat \<Rightarrow> string \<times> string) \<Rightarrow> (Task \<Rightarrow> real) \<Rightarrow> Preferences \<Rightarrow> BusyBlock list \<Rightarrow> Task list
     \<Rightarrow> PlannedBlock list option" where
  "autoPlan rnd scoreTask preferences busyBlocks tasks =
     (case expandTasks scoreTask (workBlockMins preferences) tasks of
        None \<Rightarrow> None
      | Some units \<Rightarrow>
          Some (sortPlanned (planned
            (placeAll rnd (maxBlocksPerDay preferences) (sortUnits units)
               (initialState preferences busyBlocks)))))"

section \<open>Applying an action\<close>

record PartialPreferences =
  pp_workBlockMins :: "int option"
  pp_maxBlocksPerDay :: "int option"
  pp_startHour :: "int option"
  pp_endHour :: "int option"

record BusySpec =
  bs_day :: Day
  bs_startMin :: int
  bs_endMin :: int
  bs_label :: "string option"

record TaskSpec =
  ts_title :: string
  ts_dueDate :: string
  ts_priority :: "TaskPriority option"
  ts_estimateMins :: "int option"

record AIAction =
  a_preferences :: "PartialPreferences option"
  a_addBusyBlocks :: "BusySpec list option"
  a_addTasks :: "TaskSpec list option"
  a_replan :: "bool option"

record AppState =
  preferences :: Preferences
  busyBlocks :: "BusyBlock list"
  plannedBlocks :: "PlannedBlock list"
  tasks :: "Task list"

text \<open>The spread \<open>{ ...next.preferences, ...action.preferences }\<close>.\<close>

definition mergePreferences :: "Preferences \<Rightarrow> PartialPreferences \<Rightarrow> Preferences" where
  "mergePreferences p pp =
     \<lparr>workBlockMins = (case pp_workBlockMins pp of None \<Rightarrow> workBlockMins p | Some v \<Rightarrow> v),
      maxBlocksPerDay = (case pp_maxBlocksPerDay pp of None \<Rightarrow> maxBlocksPerDay p | Some v \<Rightarrow> v),
      startHour = (case pp_startHour pp of None \<Rightarrow> startHour p | Some v \<Rightarrow> v),
      endHour = (case pp_endHour pp of None \<Rightarrow> endHour p | Some v \<Rightarrow> v)\<rparr>"

definition newBusyBlock :: "string \<times> string \<Rightarrow> BusySpec \<Rightarrow> BusyBlock" where
  "newBusyBlock e b =
     \<lparr>b_id = uid ''busy'' e, b_day = bs_day b, b_startMin = bs_startMin b, b_endMin = bs_endMin b,
      b_label = (case bs_label b of None \<Rightarrow> ''Busy'' | Some l \<Rightarrow> l)\<rparr>"

definition newTask :: "string \<times> string \<Rightarrow> int \<Rightarrow> TaskSpec \<Rightarrow> Task" where
  "newTask e now t =
     \<lparr>t_id = uid ''task'' e, t_title = ts_title t, t_dueDate = ts_dueDate t,
      t_priority = (case ts_priority t of None \<Rightarrow> medium | Some p \<Rightarrow> p),
      t_estimateMins = clamp (case ts_estimateMins t of None \<Rightarrow> 60 | Some n \<Rightarrow> n) 15 1440,
      t_done = False, t_createdAt = now, t_spentMins = Some 0\<rparr>"

text \<open>The lists an action adds; an absent list adds nothing, as an empty one does.\<close>

definition addedBusy :: "AIAction \<Rightarrow> BusySpec list" where
  "addedBusy action = (case a_addBusyBlocks action of None \<Rightarrow> [] | Some bs \<Rightarrow> bs)"

definition addedTasks :: "AIAction \<Rightarrow> TaskSpec list" where
  "addedTasks action = (case a_addTasks action of None \<Rightarrow> [] | Some ts \<Rightarrow> ts)"

text \<open>
  The updater of \<open>applyAction\<close> up to the re-plan. \<open>rnd k\<close> is what the \<open>k\<close>-th call of \<open>uid\<close>
  draws and \<open>clock k\<close> what the \<open>k\<close>-th call of \<open>Date.now()\<close> returns.
\<close>

definition mergeAction :: "(nat \<Rightarrow> string \<times> string) \<Rightarrow> (nat \<Rightarrow> int) \<Rightarrow> AIAction \<Rightarrow> AppState \<Rightarrow> AppState" where
  "mergeAction rnd clock action prev =
     (let next1 = (case a_preferences action of
                     None \<Rightarrow> prev
                   | Some pp \<Rightarrow> prev\<lparr>preferences := mergePreferences (preferences prev) pp\<rparr>);
          bs = addedBusy action;
          next2 = (if length bs \<noteq> 0
                   then next1\<lparr>busyBlocks := busyBlocks next1 @
                          map (\<lambda>(k, b). newBusyBlock (rnd k) b) (enumerate 0 bs)\<rparr>
                   else next1);
          ts = addedTasks action;
          next3 = (if length ts \<noteq> 0
                   then next2\<lparr>tasks :=
                          map (\<lambda>(k, t). newTask (rnd (length bs + k)) (clock k) t) (enumerate 0 ts)
                          @ tasks next2\<rparr>
                   else next2)
      in next3)"

definition replanNow :: "(nat \<Rightarrow> string \<times> string) \<Rightarrow> (Task \<Rightarrow> real) \<Rightarrow> AppState \<Rightarrow> AppState option" where
  "replanNow rnd scoreTask s =
     map_option (\<lambda>pb. s\<lparr>plannedBlocks := pb\<rparr>)
       (autoPlan rnd scoreTask (preferences s) (busyBlocks s) (tasks s))"

text \<open>
  \<open>applyAction\<close>: the merge, then \<open>if (action.replan) next = replanNow(next)\<close>. The scheduler
  draws its identities after those of the merge.
\<close>

definition applyAction ::
  "(nat \<Rightarrow> string \<times> string) \<Rightarrow> (nat \<Rightarrow> int) \<Rightarrow> (Task \<Rightarrow> real) \<Rightarrow> AIAction \<Rightarrow> AppState \<Rightarrow> AppState option" where
  "applyAction rnd clock scoreTask action prev =
     (let next = mergeAction rnd clock action prev;
          used = length (addedBusy action) + length (addedTasks action)
      in if a_replan action = Some True
         then replanNow (\<lambda>k. rnd (used + k)) scoreTask next
         else Some next)"

text \<open>
  The plan route, after parsing the model's answer:
  \<open>if (parsed?.action && typeof parsed.action.replan !== "boolean") parsed.action.replan = true\<close>.
\<close>

definition ensureReplan :: "AIAction \<Rightarrow> AIAction" where
  "ensureReplan action = (case a_replan action of None \<Rightarrow> action\<lparr>a_replan := Some True\<rparr> | Some r \<Rightarrow> action)"

section \<open>The apply route\<close>

text \<open>
  A parsed JSON value. Strings are sequences of UTF-8 bytes, on which containment of one
  well-formed string in another is containment of its characters.
\<close>

datatype json = JNull | JBool bool | JNum real | JStr string | JArr "json list" | JObj "(string \<times> json) list"

text \<open>
  A property read by the destructuring of the request body: the last entry of that name of an
  object (as \<open>JSON.parse\<close> keeps it), \<open>undefined\<close> on anything else.
\<close>

fun field :: "json \<Rightarrow> string \<Rightarrow> json option" where
  "field (JObj kvs) k = map_of (rev kvs) k"
| "field v k = None"

text \<open>What \<open>!x\<close> negates; \<open>None\<close> is \<open>undefined\<close>.\<close>

fun truthy :: "json option \<Rightarrow> bool" where
  "truthy None = False"
| "truthy (Some JNull) = False"
| "truthy (Some (JBool b)) = b"
| "truthy (Some (JNum n)) = (n \<noteq> 0)"
| "truthy (Some (JStr s)) = (s \<noteq> [])"
| "truthy (Some (JArr xs)) = True"
| "truthy (Some (JObj kvs)) = True"

text \<open>\<open>s.includes(w)\<close> (\<open>includes\<close> is a keyword here).\<close>

fun str_includes :: "string \<Rightarrow> string \<Rightarrow> bool" where
  "str_includes [] w = (w = [])"
| "str_includes (c # cs) w = (take (length w) (c # cs) = w \<or> str_includes cs w)"

text \<open>The third word is \<open>s\<close> followed by i with an acute accent (U+00ED, the bytes C3 AD).\<close>

definition okWords :: "string list" where
  "okWords = [''confirmo'', ''confirm'', [CHR ''s'', CHR 0xC3, CHR 0xAD], ''si'', ''ok'', ''dale'', ''aplica'']"

text \<open>
  The three error bodies of the handler: \<open>Confirmation required. Type 'confirmo' to apply.\<close>,
  \<open>Missing confirmation token.\<close>, and the message of whatever was thrown.
\<close>

datatype ApplyError = ConfirmationRequired | MissingToken | Thrown

datatype ResponseBody = OkBody "json option" | ErrorBody ApplyError

record Response =
  status :: nat
  body :: ResponseBody

text \<open>
  The handler of the apply route. Its request is the parsed body, \<open>None\<close> when \<open>req.json()\<close>
  throws; destructuring \<open>null\<close> throws as well, and both end in the \<open>catch\<close>. The built-in
  \<open>toLowerCase\<close> is a parameter. \<open>OkBody action\<close> is the body \<open>{ ok: true, action }\<close>.
\<close>

definition POST_apply :: "(string \<Rightarrow> string) \<Rightarrow> json option \<Rightarrow> Response" where
  "POST_apply toLowerCase req =
     (case req of
        None \<Rightarrow> \<lparr>status = 500, body = ErrorBody Thrown\<rparr>
      | Some JNull \<Rightarrow> \<lparr>status = 500, body = ErrorBody Thrown\<rparr>
      | Some v \<Rightarrow>
          let confirmationToken = field v ''confirmationToken'';
              action = field v ''action'';
              userConfirmationText = field v ''userConfirmationText'';
              ok = (case userConfirmationText of
                      Some (JStr text) \<Rightarrow> list_ex (\<lambda>w. str_includes (toLowerCase text) w) okWords
                    | _ \<Rightarrow> False)
          in if \<not> ok then \<lparr>status = 400, body = ErrorBody ConfirmationRequired\<rparr>
             else if \<not> truthy confirmationToken then \<lparr>status = 400, body = ErrorBody MissingToken\<rparr>
             else \<lparr>status = 200, body = OkBody action\<rparr>)"

section \<open>Sets of minutes\<close>

text \<open>The minutes of a free interval, of a busy block and of a planned block, end excluded.\<close>

definition slotSet :: "Slot \<Rightarrow> int set" where
  "slotSet s = {s_start s ..< s_end s}"

definition busySet :: "BusyBlock \<Rightarrow> int set" where
  "busySet b = {b_startMin b ..< b_endMin b}"

definition plannedSet :: "PlannedBlock \<Rightarrow> int set" where
  "plannedSet p = {p_startMin p ..< p_endMin p}"

text \<open>The configured window, and the minutes that the busy blocks of a day cover.\<close>

definition window :: "Preferences \<Rightarrow> int set" where
  "window prefs = {startHour prefs * 60 ..< endHour prefs * 60}"

definition dayBusy :: "BusyBlock list \<Rightarrow> Day \<Rightarrow> int set" where
  "dayBusy bs d = \<Union> (busySet ` {b \<in> set bs. b_day b = d})"

section \<open>Invariants of the placement loops\<close>

text \<open>
  Relative to a grid \<open>G\<close> and a set \<open>U\<close> of units: every free slot lies within a slot of \<open>G\<close>;
  every planned block lies within a slot of \<open>G\<close> of its day and has the duration, task and
  label of a unit of \<open>U\<close>; the counter of a day is the number of blocks planned on it and is
  at most the cap (at most 0 for a negative cap).
\<close>

definition placedInv :: "(Day \<Rightarrow> Slot list) \<Rightarrow> WorkUnit set \<Rightarrow> int \<Rightarrow> PlanState \<Rightarrow> bool" where
  "placedInv G U cap st \<longleftrightarrow>
     (\<forall>d. \<forall>s \<in> set (free st d). \<exists>g \<in> set (G d). s_start g \<le> s_start s \<and> s_end s \<le> s_end g)
   \<and> (\<forall>p \<in> set (planned st). \<exists>g \<in> set (G (p_day p)). \<exists>u \<in> U.
          s_start g \<le> p_startMin p \<and> p_endMin p \<le> s_end g
        \<and> p_endMin p - p_startMin p = u_mins u
        \<and> p_taskId p = Some (u_taskId u) \<and> p_label p = Some (u_label u))
   \<and> (\<forall>d. dailyCount st d = int (length (filter (\<lambda>p. p_day p = d) (planned st))))
   \<and> (\<forall>d. dailyCount st d \<le> max 0 cap)"

text \<open>
  The free slots of a day are in ascending order, each ending no later than the next starts;
  no planned block meets a free slot of its day; no two planned blocks of a day meet.
\<close>

definition disjointInv :: "PlanState \<Rightarrow> bool" where
  "disjointInv st \<longleftrightarrow>
     (\<forall>d. sorted_wrt (\<lambda>x y. s_end x \<le> s_start y) (free st d))
   \<and> (\<forall>d. sorted (map s_start (free st d)))
   \<and> (\<forall>p \<in> set (planned st). \<forall>s \<in> set (free st (p_day p)).
          p_endMin p \<le> s_start s \<or> s_end s \<le> p_startMin p)
   \<and> sorted_wrt (\<lambda>p q. p_day p = p_day q \<longrightarrow> p_endMin p \<le> p_startMin q \<or> p_endMin q \<le> p_startMin p)
        (planned st)"

text \<open>A planned block without its identity.\<close>

definition eraseId :: "PlannedBlock \<Rightarrow> PlannedBlock" where
  "eraseId p = p\<lparr>p_id := []\<rparr>"

section \<open>Example inputs\<close>

definition exampleTask :: Task where
  "exampleTask = \<lparr>t_id = ''t1'', t_title = ''Exam'', t_dueDate = ''2026-01-10'', t_priority = high,
     t_estimateMins = 130, t_done = False, t_createdAt = 0, t_spentMins = None\<rparr>"

definition exampleRnd :: "nat \<Rightarrow> string \<times> string" where
  "exampleRnd k = (''8f3a'' @ decimal k, ''19a0'')"

definition exampleClock :: "nat \<Rightarrow> int" where
  "exampleClock k = 1767225600000 + int k"

definition exampleScore :: "Task \<Rightarrow> real" where
  "exampleScore t = (case t_priority t of low \<Rightarrow> 0.7 | medium \<Rightarrow> 1.0 | high \<Rightarrow> 1.35)"

definition examplePrefs :: Preferences where
  "examplePrefs = \<lparr>workBlockMins = 50, maxBlocksPerDay = 3, startHour = 6, endHour = 22\<rparr>"

definition exampleBusy :: "BusyBlock list" where
  "exampleBusy = [\<lparr>b_id = ''busy_1'', b_day = Mon, b_startMin = 370, b_endMin = 400, b_label = ''Class''\<rparr>]"

definition exampleState :: AppState where
  "exampleState = \<lparr>preferences = examplePrefs, busyBlocks = exampleBusy, plannedBlocks = [], tasks = []\<rparr>"

definition exampleSpecs :: "TaskSpec list" where
  "exampleSpecs =
     [\<lparr>ts_title = ''Essay'', ts_dueDate = ''2026-01-12'', ts_priority = None, ts_estimateMins = Some 5000\<rparr>,
      \<lparr>ts_title = ''Quiz'', ts_dueDate = ''2026-01-09'', ts_priority = Some high, ts_estimateMins = None\<rparr>]"

definition exampleAction :: AIAction where
  "exampleAction = \<lparr>a_preferences = None, a_addBusyBlocks = None, a_addTasks = Some exampleSpecs,
     a_replan = Some True\<rparr>"

definition smallAction :: AIAction where
  "smallAction = \<lparr>a_preferences = None, a_addBusyBlocks = None,
     a_addTasks = Some [\<lparr>ts_title = ''Quiz'', ts_dueDate = ''2026-01-09'', ts_priority = Some high,
                         ts_estimateMins = Some 30\<rparr>],
     a_replan = None\<rparr>"

text \<open>Busy blocks that end before they start, as an action of the plan route can carry them.\<close>

definition invertedBusy :: BusyBlock where
  "invertedBusy = \<lparr>b_id = ''busy_4'', b_day = Mon, b_startMin = 420, b_endMin = 400, b_label = ''Busy''\<rparr>"

definition lateInverted :: BusyBlock where
  "lateInverted = \<lparr>b_id = ''busy_5'', b_day = Mon, b_startMin = 1260, b_endMin = 420, b_label = ''Busy''\<rparr>"

definition wideInverted :: BusyBlock where
  "wideInverted = \<lparr>b_id = ''busy_6'', b_day = Mon, b_startMin = 500, b_endMin = 400, b_label = ''Busy''\<rparr>"

definition shortBusy :: BusyBlock where
  "shortBusy = \<lparr>b_id = ''busy_7'', b_day = Mon, b_startMin = 450, b_endMin = 460, b_label = ''Busy''\<rparr>"

definition doneTask :: Task where
  "doneTask = \<lparr>t_id = ''t0'', t_title = ''Notes'', t_dueDate = ''2026-01-08'', t_priority = low,
     t_estimateMins = 90, t_done = True, t_createdAt = 0, t_spentMins = None\<rparr>"

text \<open>A lower-casing of the ASCII letters, for the example requests.\<close>

definition asciiLower :: "string \<Rightarrow> string" where
  "asciiLower s =
     map (\<lambda>c. case map_of (zip ''ABCDEFGHIJKLMNOPQRSTUVWXYZ'' ''abcdefghijklmnopqrstuvwxyz'') c of
                None \<Rightarrow> c | Some l \<Rightarrow> l) s"

definition confirmRequest :: json where
  "confirmRequest = JObj [(''confirmationToken'', JStr ''tok_1''), (''action'', JObj [(''replan'', JBool True)]),
     (''userConfirmationText'', JStr ''OK, dale'')]"

definition nopeRequest :: json where
  "nopeRequest = JObj [(''confirmationToken'', JStr ''tok_1''), (''action'', JObj []),
     (''userConfirmationText'', JStr ''nope'')]"

definition tokenlessRequest :: json where
  "tokenlessRequest = JObj [(''action'', JObj []), (''userConfirmationText'', JStr ''confirmo'')]"

definition busyClass :: BusyBlock where
  "busyClass = \<lparr>b_id = ''busy_2'', b_day = Mon, b_startMin = 540, b_endMin = 600, b_label = ''Class''\<rparr>"

definition busyGym :: BusyBlock where
  "busyGym = \<lparr>b_id = ''busy_3'', b_day = Mon, b_startMin = 605, b_endMin = 700, b_label = ''Gym''\<rparr>"

definition examplePlan :: "PlannedBlock list" where
  "examplePlan =
     [\<lparr>p_id = ''plan_8f3a0_19a0'', p_day = Mon, p_startMin = 360, p_endMin = 410, p_type = ''plan'',
       p_taskId = Some ''t1'', p_label = Some ''Exam (Part 1/3)''\<rparr>,
      \<lparr>p_id = ''plan_8f3a1_19a0'', p_day = Mon, p_startMin = 410, p_endMin = 460, p_type = ''plan'',
       p_taskId = Some ''t1'', p_label = Some ''Exam (Part 2/3)''\<rparr>,
      \<lparr>p_id = ''plan_8f3a2_19a0'', p_day = Mon, p_startMin = 460, p_endMin = 490, p_type = ''plan'',
       p_taskId = Some ''t1'', p_label = Some ''Exam (Part 3/3)''\<rparr>]"

definition otherRnd :: "nat \<Rightarrow> string \<times> string" where
  "otherRnd k = (''c41d'' @ decimal k, ''19a1'')"

definition exampleUnits :: "WorkUnit list" where
  "exampleUnits =
     [\<lparr>u_taskId = ''t1'', u_label = ''Exam (Part 1/3)'', u_mins = 50, u_score = 1.35\<rparr>,
      \<lparr>u_taskId = ''t1'', u_label = ''Exam (Part 2/3)'', u_mins = 50, u_score = 1.35\<rparr>,
      \<lparr>u_taskId = ''t1'', u_label = ''Exam (Part 3/3)'', u_mins = 30, u_score = 1.35\<rparr>]"

text \<open>The state of the placement loops after the first of these units.\<close>

definition exampleMid :: PlanState where
  "exampleMid = placeAll exampleRnd (maxBlocksPerDay examplePrefs) (take 1 (sortUnits exampleUnits))
     (initialState examplePrefs [busyClass])"

section \<open>Properties\<close>

subsection \<open>Work units of a task\<close>

lemma map_upt_last:
  assumes "0 < n"
  shows "map (\<lambda>i. if int i = int n - 1 then a else b) [0..<n] = replicate (n - 1) b @ [a]"
proof -
  obtain m where n: "n = Suc m" using assms by (cases n) auto
  have "map (\<lambda>i. if int i = int m then a else b) [0..<m] = replicate m b"
    by (rule nth_equalityI) auto
  then show ?thesis unfolding n by simp
qed

lemma taskUnits_mins:
  fixes t :: Task and block :: int
  defines "R \<equiv> t_estimateMins t"
  defines "parts \<equiv> max 1 \<lceil>real_of_int R / real_of_int block\<rceil>"
  assumes "\<not> t_done t" "0 < R" "block \<noteq> 0"
  shows "\<exists>us. taskUnits sc block t = Some us \<and>
     map u_mins us = map (max 15) (replicate (nat (parts - 1)) block @ [R - block * (parts - 1)])"
proof -
  have p: "0 < nat parts" "int (nat parts) = parts" by (simp_all add: parts_def)
  have "map (\<lambda>i. max 15 (if int i = int (nat parts) - 1 then R - block * (parts - 1) else block)) [0..<nat parts]
        = map (max 15) (map (\<lambda>i. (if int i = int (nat parts) - 1 then R - block * (parts - 1) else block)) [0..<nat parts])"
    by (simp add: comp_def)
  also have "\<dots> = map (max 15) (replicate (nat parts - 1) block @ [R - block * (parts - 1)])"
    by (simp only: map_upt_last [OF p(1)])
  finally have m: "map (\<lambda>i. max 15 (if int i = int (nat parts) - 1 then R - block * (parts - 1) else block)) [0..<nat parts]
       = map (max 15) (replicate (nat parts - 1) block @ [R - block * (parts - 1)])" .
  have n: "nat parts - 1 = nat (parts - 1)" by (simp add: parts_def)
  show ?thesis
    using assms(3-) m p(2) unfolding n
    by (simp add: taskUnits_def Let_def comp_def R_def [symmetric] parts_def [symmetric] max_absorb2)
qed

lemma sum_list_max15:
  "sum_list (map (max 15) (replicate n (b::int) @ [l])) = int n * max 15 b + max 15 l"
  by (simp add: sum_list_replicate)

text \<open>
  One task, for a block size other than 0: a task that is done or whose estimate is not
  positive yields no unit; a task that is not done, with estimate \<open>R > 0\<close>, yields
  \<open>parts = max 1 (ceiling (R / block))\<close> units whose raw durations are \<open>block\<close> for all but
  the last and \<open>R - block * (parts - 1)\<close> for the last, each raised to at least 15 minutes.
\<close>

lemma taskUnits_parts:
  fixes t :: Task and block :: int
  defines "R \<equiv> t_estimateMins t"
  defines "parts \<equiv> max 1 \<lceil>real_of_int R / real_of_int block\<rceil>"
  assumes block: "block \<noteq> 0"
  shows "(t_done t \<or> R \<le> 0 \<longrightarrow> taskUnits sc block t = Some [])
    \<and> (\<not> t_done t \<and> 0 < R \<longrightarrow>
         (\<exists>us. taskUnits sc block t = Some us
            \<and> int (length us) = parts
            \<and> map u_mins us =
                map (max 15) (replicate (nat (parts - 1)) block @ [R - block * (parts - 1)])
            \<and> sum_list (replicate (nat (parts - 1)) block @ [R - block * (parts - 1)]) = R
            \<and> (\<forall>u \<in> set us. 15 \<le> u_mins u)
            \<and> sum_list (map u_mins us) =
                R + (parts - 1) * (max 15 block - block)
                  + (max 15 (R - block * (parts - 1)) - (R - block * (parts - 1)))
            \<and> R \<le> sum_list (map u_mins us)))"
proof (intro conjI impI)
  assume "t_done t \<or> R \<le> 0"
  then show "taskUnits sc block t = Some []"
    by (auto simp: taskUnits_def R_def Let_def)
next
  assume a: "\<not> t_done t \<and> 0 < R"
  let ?raw = "replicate (nat (parts - 1)) block @ [R - block * (parts - 1)]"
  from a block obtain us where us: "taskUnits sc block t = Some us"
    and mins: "map u_mins us = map (max 15) ?raw"
    using taskUnits_mins [of t block sc] unfolding R_def parts_def by blast
  have p1: "1 \<le> parts" by (simp add: parts_def)
  have len: "int (length us) = parts"
  proof -
    have "length (map u_mins us) = length (map (max (15::int)) ?raw)" by (simp only: mins)
    then show ?thesis using p1 by simp
  qed
  have raw: "sum_list ?raw = R"
    using p1 by (simp add: sum_list_replicate algebra_simps)
  have ge: "\<forall>u \<in> set us. 15 \<le> u_mins u"
  proof
    fix u assume "u \<in> set us"
    then have "u_mins u \<in> set (map u_mins us)" by simp
    then show "15 \<le> u_mins u" unfolding mins by auto
  qed
  have sum: "sum_list (map u_mins us) =
      R + (parts - 1) * (max 15 block - block)
        + (max 15 (R - block * (parts - 1)) - (R - block * (parts - 1)))"
    unfolding mins sum_list_max15 using p1 by (simp add: algebra_simps)
  have "0 \<le> (parts - 1) * (max 15 block - block)"
    using p1 by (intro mult_nonneg_nonneg) auto
  then have le: "R \<le> sum_list (map u_mins us)" unfolding sum by simp
  show "\<exists>us. taskUnits sc block t = Some us
            \<and> int (length us) = parts
            \<and> map u_mins us = map (max 15) ?raw
            \<and> sum_list ?raw = R
            \<and> (\<forall>u \<in> set us. 15 \<le> u_mins u)
            \<and> sum_list (map u_mins us) =
                R + (parts - 1) * (max 15 block - block)
                  + (max 15 (R - block * (parts - 1)) - (R - block * (parts - 1)))
            \<and> R \<le> sum_list (map u_mins us)"
    using us len mins raw ge sum le by blast
qed

subsection \<open>Work units of a task list\<close>

lemma taskUnits_origin:
  "taskUnits sc block t = Some us \<Longrightarrow> u \<in> set us \<Longrightarrow> u_taskId u = t_id t \<and> u_score u = sc t"
  by (auto simp: taskUnits_def Let_def split: if_splits)

lemma expandTasks_concat:
  assumes "block \<noteq> 0"
  shows "\<exists>uss. expandTasks sc block ts = Some (concat uss) \<and> length uss = length ts
     \<and> (\<forall>i < length ts. taskUnits sc block (ts ! i) = Some (uss ! i))"
proof (induction ts)
  case Nil
  show ?case by (intro exI [of _ "[]"]) simp
next
  case (Cons t ts)
  then obtain uss where uss: "expandTasks sc block ts = Some (concat uss)" "length uss = length ts"
    "\<forall>i < length ts. taskUnits sc block (ts ! i) = Some (uss ! i)" by blast
  have "\<exists>us. taskUnits sc block t = Some us"
    using assms by (simp add: taskUnits_def Let_def)
  then obtain us where us: "taskUnits sc block t = Some us" ..
  have "\<forall>i < length (t # ts). taskUnits sc block ((t # ts) ! i) = Some ((us # uss) ! i)"
  proof (intro allI impI)
    fix i assume "i < length (t # ts)"
    then show "taskUnits sc block ((t # ts) ! i) = Some ((us # uss) ! i)"
      by (cases i) (use us uss(3) in simp_all)
  qed
  with us uss(1,2) show ?case by (intro exI [of _ "us # uss"]) simp
qed

text \<open>
  Claim C7. For a block size other than 0 (the preferences have it positive), the expansion of
  a task list returns the units of its tasks, task after task in the order of the list. A task
  that is done or whose estimate is not positive contributes no unit. A task that is not done,
  with estimate \<open>R > 0\<close>, contributes exactly \<open>parts = max 1 (ceiling (R / block))\<close> units, all
  carrying its id and score; before the floor every unit but the last lasts \<open>block\<close> and the
  last lasts \<open>R - block * (parts - 1)\<close>, and these raw durations add up to \<open>R\<close>; every
  unit's duration is the raw one (rounding is the identity on integers) raised to at least 15
  minutes, so the durations add up to \<open>R\<close> plus what the 15-minute floor added.
\<close>

theorem expandTasks_parts:
  assumes block: "block \<noteq> 0"
  shows "\<exists>uss. expandTasks sc block ts = Some (concat uss) \<and> length uss = length ts
     \<and> (\<forall>i < length ts.
           (let t = ts ! i; us = uss ! i; R = t_estimateMins t;
                parts = max 1 \<lceil>real_of_int R / real_of_int block\<rceil>;
                raw = replicate (nat (parts - 1)) block @ [R - block * (parts - 1)]
            in (t_done t \<or> R \<le> 0 \<longrightarrow> us = [])
             \<and> (\<not> t_done t \<and> 0 < R \<longrightarrow>
                   int (length us) = parts
                 \<and> map u_mins us = map (max 15) raw
                 \<and> sum_list raw = R
                 \<and> (\<forall>u \<in> set us. 15 \<le> u_mins u \<and> u_taskId u = t_id t \<and> u_score u = sc t)
                 \<and> sum_list (map u_mins us) =
                     R + (parts - 1) * (max 15 block - block)
                       + (max 15 (R - block * (parts - 1)) - (R - block * (parts - 1)))
                 \<and> R \<le> sum_list (map u_mins us))))"
proof -
  from expandTasks_concat [OF block, of sc ts]
  obtain uss where uss: "expandTasks sc block ts = Some (concat uss)" "length uss = length ts"
    "\<forall>i < length ts. taskUnits sc block (ts ! i) = Some (uss ! i)" by blast
  have "let t = ts ! i; us = uss ! i; R = t_estimateMins t;
                parts = max 1 \<lceil>real_of_int R / real_of_int block\<rceil>;
                raw = replicate (nat (parts - 1)) block @ [R - block * (parts - 1)]
            in (t_done t \<or> R \<le> 0 \<longrightarrow> us = [])
             \<and> (\<not> t_done t \<and> 0 < R \<longrightarrow>
                   int (length us) = parts
                 \<and> map u_mins us = map (max 15) raw
                 \<and> sum_list raw = R
                 \<and> (\<forall>u \<in> set us. 15 \<le> u_mins u \<and> u_taskId u = t_id t \<and> u_score u = sc t)
                 \<and> sum_list (map u_mins us) =
                     R + (parts - 1) * (max 15 block - block)
                       + (max 15 (R - block * (parts - 1)) - (R - block * (parts - 1)))
                 \<and> R \<le> sum_list (map u_mins us))"
    if i: "i < length ts" for i
  proof -
    from uss(3) i have tu: "taskUnits sc block (ts ! i) = Some (uss ! i)" by simp
    define t where "t = ts ! i"
    define R where "R = t_estimateMins t"
    define parts where "parts = max 1 \<lceil>real_of_int R / real_of_int block\<rceil>"
    define raw where "raw = replicate (nat (parts - 1)) block @ [R - block * (parts - 1)]"
    note p = taskUnits_parts [OF block, of t sc, folded R_def]
    have tu': "taskUnits sc block t = Some (uss ! i)" using tu by (simp add: t_def)
    have o: "\<forall>u \<in> set (uss ! i). u_taskId u = t_id t \<and> u_score u = sc t"
      using taskUnits_origin [OF tu'] by blast
    have d: "uss ! i = []" if "t_done t \<or> R \<le> 0"
      using p [THEN conjunct1, rule_format, OF that] tu' by simp
    have a: "int (length (uss ! i)) = parts
                 \<and> map u_mins (uss ! i) = map (max 15) raw
                 \<and> sum_list raw = R
                 \<and> (\<forall>u \<in> set (uss ! i). 15 \<le> u_mins u \<and> u_taskId u = t_id t \<and> u_score u = sc t)
                 \<and> sum_list (map u_mins (uss ! i)) =
                     R + (parts - 1) * (max 15 block - block)
                       + (max 15 (R - block * (parts - 1)) - (R - block * (parts - 1)))
                 \<and> R \<le> sum_list (map u_mins (uss ! i))"
      if act: "\<not> t_done t \<and> 0 < R"
    proof -
      from p [THEN conjunct2, rule_format, OF act] obtain us where
        us: "taskUnits sc block t = Some us" "int (length us) = parts"
          "map u_mins us = map (max 15) raw" "sum_list raw = R" "\<forall>u \<in> set us. 15 \<le> u_mins u"
          "sum_list (map u_mins us) =
                     R + (parts - 1) * (max 15 block - block)
                       + (max 15 (R - block * (parts - 1)) - (R - block * (parts - 1)))"
          "R \<le> sum_list (map u_mins us)"
        unfolding parts_def raw_def by (elim exE conjE)
      from us(1) tu' have e: "us = uss ! i" by simp
      from us(5) o have "\<forall>u \<in> set (uss ! i). 15 \<le> u_mins u \<and> u_taskId u = t_id t \<and> u_score u = sc t"
        unfolding e by blast
      with us(2,3,4,6,7) show ?thesis unfolding e by (intro conjI)
    qed
    from d a show ?thesis
      unfolding Let_def t_def [symmetric] R_def [symmetric] parts_def [symmetric] raw_def [symmetric]
      by blast
  qed
  with uss(1,2) show ?thesis by blast
qed

theorem expandTasks_parts_witness:
  "(60::int) \<noteq> 0
   \<and> (\<exists>us. expandTasks exampleScore 60 [doneTask, exampleTask] = Some us
         \<and> map u_mins us = [60, 60, 15]
         \<and> map u_taskId us = [''t1'', ''t1'', ''t1''])"
proof -
  have b: "(60::int) \<noteq> 0" by simp
  from expandTasks_parts [OF b, of exampleScore "[doneTask, exampleTask]"]
  obtain uss where e: "expandTasks exampleScore 60 [doneTask, exampleTask] = Some (concat uss)"
    and l: "length uss = length [doneTask, exampleTask]"
    and all: "\<forall>i < length [doneTask, exampleTask].
           (let t = [doneTask, exampleTask] ! i; us = uss ! i; R = t_estimateMins t;
                parts = max 1 \<lceil>real_of_int R / real_of_int 60\<rceil>;
                raw = replicate (nat (parts - 1)) 60 @ [R - 60 * (parts - 1)]
            in (t_done t \<or> R \<le> 0 \<longrightarrow> us = [])
             \<and> (\<not> t_done t \<and> 0 < R \<longrightarrow>
                   int (length us) = parts
                 \<and> map u_mins us = map (max 15) raw
                 \<and> sum_list raw = R
                 \<and> (\<forall>u \<in> set us. 15 \<le> u_mins u \<and> u_taskId u = t_id t \<and> u_score u = exampleScore t)
                 \<and> sum_list (map u_mins us) =
                     R + (parts - 1) * (max 15 60 - 60)
                       + (max 15 (R - 60 * (parts - 1)) - (R - 60 * (parts - 1)))
                 \<and> R \<le> sum_list (map u_mins us)))"
    by (elim exE conjE)
  from l obtain a c where ac: "uss = [a, c]"
    by (cases uss; cases "tl uss"; cases "tl (tl uss)") auto
  have i0: "0 < length [doneTask, exampleTask]" and i1: "1 < length [doneTask, exampleTask]" by simp_all
  from all [rule_format, OF i0] have a: "a = []"
    unfolding ac by (simp add: Let_def doneTask_def)
  from all [rule_format, OF i1] have c: "int (length c) = 3" "map u_mins c = [60, 60, 15]"
      "\<forall>u \<in> set c. u_taskId u = ''t1''"
    unfolding ac by (simp_all add: Let_def exampleTask_def numeral_eq_Suc)
  from c(1) have "length c = 3" by simp
  then obtain x y z where xyz: "c = [x, y, z]"
    by (cases c; cases "tl c"; cases "tl (tl c)"; cases "tl (tl (tl c))") auto
  with c(3) have t: "map u_taskId c = [''t1'', ''t1'', ''t1'']" by simp
  have "expandTasks exampleScore 60 [doneTask, exampleTask] = Some c" using e unfolding ac a by simp
  with c(2) t b show ?thesis by (intro conjI exI [of _ c])
qed

subsection \<open>Evaluation of the examples\<close>

lemmas example_defs = exampleRnd_def exampleClock_def exampleScore_def examplePrefs_def exampleBusy_def
  exampleState_def exampleSpecs_def exampleAction_def smallAction_def

lemmas plan_defs = autoPlan_def taskUnits_def sortUnits_def sortPlanned_def placeAll_def initialState_def
  buildFreeGrid_def subtractBusy_def cutDay_def cutSlot_def placeOnDay_def DAYS_def uid_def Let_def

lemmas apply_defs = applyAction_def mergeAction_def replanNow_def addedBusy_def addedTasks_def
  newTask_def newBusyBlock_def clamp_def mergePreferences_def

subsection \<open>Applying an action\<close>

lemma expandTasks_Some:
  "block \<noteq> 0 \<Longrightarrow> \<exists>us. expandTasks sc block ts = Some us"
proof (induction ts)
  case Nil then show ?case by simp
next
  case (Cons t ts)
  have "\<exists>us. taskUnits sc block t = Some us"
    using Cons.prems by (simp add: taskUnits_def Let_def)
  with Cons show ?case by auto
qed

lemma autoPlan_Some:
  "workBlockMins prefs \<noteq> 0 \<Longrightarrow> \<exists>ps. autoPlan rnd sc prefs busy ts = Some ps"
  using expandTasks_Some [of "workBlockMins prefs" sc ts]
  by (auto simp: autoPlan_def)

lemma tasks_mergeAction:
  "tasks (mergeAction rnd clock action prev) =
     map (\<lambda>(k, t). newTask (rnd (length (addedBusy action) + k)) (clock k) t) (enumerate 0 (addedTasks action))
     @ tasks prev"
  by (simp add: mergeAction_def Let_def split: option.splits)

lemma plannedBlocks_mergeAction:
  "plannedBlocks (mergeAction rnd clock action prev) = plannedBlocks prev"
  by (simp add: mergeAction_def Let_def split: option.splits)

lemma newTask_fields:
  "t_title (newTask e now s) = ts_title s"
  "t_dueDate (newTask e now s) = ts_dueDate s"
  "t_priority (newTask e now s) = (case ts_priority s of None \<Rightarrow> medium | Some p \<Rightarrow> p)"
  "t_estimateMins (newTask e now s) = clamp (case ts_estimateMins s of None \<Rightarrow> 60 | Some n \<Rightarrow> n) 15 1440"
  "t_done (newTask e now s) = False"
  "15 \<le> t_estimateMins (newTask e now s)"
  "t_estimateMins (newTask e now s) \<le> 1440"
  by (simp_all add: newTask_def clamp_def)

lemma applyAction_tasks_eq:
  "applyAction rnd clock sc action prev = Some next \<Longrightarrow>
   tasks next = tasks (mergeAction rnd clock action prev)"
  by (auto simp: applyAction_def Let_def replanNow_def split: if_splits)

text \<open>
  Claim C8. When an action carries task specs, \<open>applyAction\<close> returns a state (provided the
  re-plan it may trigger ends, that is the merged block size is not 0) whose task list is the
  created tasks, in the order of the specs, followed by all the tasks there were. Every created
  task has the spec's title and due date, the spec's priority or \<open>medium\<close> when absent,
  \<open>done = False\<close>, and as estimate the given value (60 when absent) clamped to between 15 and
  1440: an estimate out of range is clamped, never rejected.
\<close>

theorem applyAction_addTasks:
  assumes specs: "a_addTasks action = Some specs"
    and block: "a_replan action = Some True \<longrightarrow>
                  workBlockMins (preferences (mergeAction rnd clock action prev)) \<noteq> 0"
  shows "\<exists>next new. applyAction rnd clock sc action prev = Some next
     \<and> tasks next = new @ tasks prev
     \<and> length new = length specs
     \<and> (\<forall>i < length specs.
           t_title (new ! i) = ts_title (specs ! i)
         \<and> t_dueDate (new ! i) = ts_dueDate (specs ! i)
         \<and> t_priority (new ! i) = (case ts_priority (specs ! i) of None \<Rightarrow> medium | Some p \<Rightarrow> p)
         \<and> t_done (new ! i) = False
         \<and> t_estimateMins (new ! i) =
             clamp (case ts_estimateMins (specs ! i) of None \<Rightarrow> 60 | Some n \<Rightarrow> n) 15 1440
         \<and> 15 \<le> t_estimateMins (new ! i) \<and> t_estimateMins (new ! i) \<le> 1440)"
proof -
  let ?m = "mergeAction rnd clock action prev"
  let ?new = "map (\<lambda>(k, t). newTask (rnd (length (addedBusy action) + k)) (clock k) t) (enumerate 0 specs)"
  have added: "addedTasks action = specs" using specs by (simp add: addedTasks_def)
  obtain "next" where nxt: "applyAction rnd clock sc action prev = Some next"
  proof (cases "a_replan action = Some True")
    case True
    with block obtain ps where
      "autoPlan (\<lambda>k. rnd (length (addedBusy action) + length (addedTasks action) + k)) sc
         (preferences ?m) (busyBlocks ?m) (tasks ?m) = Some ps"
      using autoPlan_Some by blast
    with True that show ?thesis by (simp add: applyAction_def Let_def replanNow_def)
  next
    case False
    with that show ?thesis by (simp add: applyAction_def Let_def)
  qed
  have t: "tasks next = ?new @ tasks prev"
    using applyAction_tasks_eq [OF nxt] by (simp add: tasks_mergeAction added)
  have len: "length ?new = length specs" by simp
  have fields: "\<forall>i < length specs.
           t_title (?new ! i) = ts_title (specs ! i)
         \<and> t_dueDate (?new ! i) = ts_dueDate (specs ! i)
         \<and> t_priority (?new ! i) = (case ts_priority (specs ! i) of None \<Rightarrow> medium | Some p \<Rightarrow> p)
         \<and> t_done (?new ! i) = False
         \<and> t_estimateMins (?new ! i) =
             clamp (case ts_estimateMins (specs ! i) of None \<Rightarrow> 60 | Some n \<Rightarrow> n) 15 1440
         \<and> 15 \<le> t_estimateMins (?new ! i) \<and> t_estimateMins (?new ! i) \<le> 1440"
    by (simp add: nth_enumerate_eq newTask_fields clamp_def)
  from nxt t len fields show ?thesis by blast
qed

theorem applyAction_addTasks_witness:
  "a_addTasks exampleAction = Some exampleSpecs
   \<and> a_replan exampleAction = Some True
   \<and> workBlockMins (preferences (mergeAction exampleRnd exampleClock exampleAction exampleState)) = 50
   \<and> (\<exists>next new. applyAction exampleRnd exampleClock exampleScore exampleAction exampleState = Some next
         \<and> tasks next = new @ tasks exampleState \<and> length new = 2
         \<and> t_priority (new ! 0) = medium \<and> t_estimateMins (new ! 0) = 1440
         \<and> t_priority (new ! 1) = high \<and> t_estimateMins (new ! 1) = 60
         \<and> t_done (new ! 0) = False \<and> t_done (new ! 1) = False)"
proof -
  have s: "a_addTasks exampleAction = Some exampleSpecs" by (simp add: exampleAction_def)
  have w: "workBlockMins (preferences (mergeAction exampleRnd exampleClock exampleAction exampleState)) = 50"
    by (simp add: mergeAction_def exampleAction_def exampleState_def examplePrefs_def addedBusy_def
        addedTasks_def exampleSpecs_def Let_def)
  then have b: "a_replan exampleAction = Some True \<longrightarrow>
      workBlockMins (preferences (mergeAction exampleRnd exampleClock exampleAction exampleState)) \<noteq> 0"
    by simp
  from applyAction_addTasks [OF s b, of exampleScore]
  obtain "next" new where n: "applyAction exampleRnd exampleClock exampleScore exampleAction exampleState = Some next"
      "tasks next = new @ tasks exampleState" "length new = length exampleSpecs"
    and f: "\<forall>i < length exampleSpecs.
           t_title (new ! i) = ts_title (exampleSpecs ! i)
         \<and> t_dueDate (new ! i) = ts_dueDate (exampleSpecs ! i)
         \<and> t_priority (new ! i) = (case ts_priority (exampleSpecs ! i) of None \<Rightarrow> medium | Some p \<Rightarrow> p)
         \<and> t_done (new ! i) = False
         \<and> t_estimateMins (new ! i) =
             clamp (case ts_estimateMins (exampleSpecs ! i) of None \<Rightarrow> 60 | Some n \<Rightarrow> n) 15 1440
         \<and> 15 \<le> t_estimateMins (new ! i) \<and> t_estimateMins (new ! i) \<le> 1440"
    by blast
  have l: "length exampleSpecs = 2" by (simp add: exampleSpecs_def)
  from f l have f0: "t_priority (new ! 0) = medium" "t_estimateMins (new ! 0) = 1440" "t_done (new ! 0) = False"
    by (simp_all add: exampleSpecs_def clamp_def)
  from f l have "t_priority (new ! 1) = (case ts_priority (exampleSpecs ! 1) of None \<Rightarrow> medium | Some p \<Rightarrow> p)
       \<and> t_done (new ! 1) = False
       \<and> t_estimateMins (new ! 1) = clamp (case ts_estimateMins (exampleSpecs ! 1) of None \<Rightarrow> 60 | Some n \<Rightarrow> n) 15 1440"
    by simp
  then have f1: "t_priority (new ! 1) = high" "t_estimateMins (new ! 1) = 60" "t_done (new ! 1) = False"
    by (simp_all add: exampleSpecs_def clamp_def)
  show ?thesis
    using s w n f0 f1 l by (auto simp: exampleAction_def)
qed

lemma mergeAction_ensureReplan:
  "mergeAction rnd clock (ensureReplan action) prev = mergeAction rnd clock action prev"
  by (simp add: mergeAction_def ensureReplan_def addedBusy_def addedTasks_def split: option.splits)

lemma added_ensureReplan:
  "addedBusy (ensureReplan action) = addedBusy action"
  "addedTasks (ensureReplan action) = addedTasks action"
  by (simp_all add: ensureReplan_def addedBusy_def addedTasks_def split: option.splits)

lemma small_merge:
  "mergeAction exampleRnd exampleClock smallAction exampleState =
     \<lparr>preferences = examplePrefs, busyBlocks = exampleBusy, plannedBlocks = [],
      tasks = [\<lparr>t_id = ''task_8f3a0_19a0'', t_title = ''Quiz'', t_dueDate = ''2026-01-09'',
                t_priority = high, t_estimateMins = 30, t_done = False,
                t_createdAt = 1767225600000, t_spentMins = Some 0\<rparr>]\<rparr>"
  by (simp add: apply_defs example_defs enumerate_eq_zip decimal.simps uid_def)

lemma small_rerun:
  "map_option (map (\<lambda>p. (p_day p, p_startMin p, p_endMin p)))
        (autoPlan (\<lambda>k. exampleRnd (1 + k)) exampleScore examplePrefs exampleBusy
           [\<lparr>t_id = ''task_8f3a0_19a0'', t_title = ''Quiz'', t_dueDate = ''2026-01-09'',
                t_priority = high, t_estimateMins = 30, t_done = False,
                t_createdAt = 1767225600000, t_spentMins = Some 0\<rparr>])
       = Some [(Mon, 400, 430)]"
  by (simp add: plan_defs examplePrefs_def exampleBusy_def exampleScore_def exampleRnd_def)

text \<open>
  \<open>applyAction\<close> on any action: it re-runs the scheduler on the just-merged state exactly when
  \<open>replan\<close> is true, and the plan route turns an absent \<open>replan\<close> into true.
\<close>

lemma applyAction_replan:
  fixes rnd clock sc action prev
  defines "m \<equiv> mergeAction rnd clock action prev"
  defines "rnd' \<equiv> (\<lambda>k. rnd (length (addedBusy action) + length (addedTasks action) + k))"
  defines "rerun \<equiv> map_option (\<lambda>pb. m\<lparr>plannedBlocks := pb\<rparr>)
                      (autoPlan rnd' sc (preferences m) (busyBlocks m) (tasks m))"
  shows "(a_replan action = Some True \<longrightarrow> applyAction rnd clock sc action prev = rerun)
    \<and> (a_replan action \<noteq> Some True \<longrightarrow>
         applyAction rnd clock sc action prev = Some m \<and> plannedBlocks m = plannedBlocks prev)
    \<and> (a_replan action \<noteq> Some False \<longrightarrow>
         a_replan (ensureReplan action) = Some True
         \<and> applyAction rnd clock sc (ensureReplan action) prev = rerun)
    \<and> (a_replan action = Some False \<longrightarrow> ensureReplan action = action)"
proof (intro conjI impI)
  assume "a_replan action = Some True"
  then show "applyAction rnd clock sc action prev = rerun"
    by (simp add: applyAction_def replanNow_def Let_def m_def rnd'_def rerun_def)
next
  assume "a_replan action \<noteq> Some True"
  then show "applyAction rnd clock sc action prev = Some m"
    by (simp add: applyAction_def Let_def m_def)
next
  show "plannedBlocks m = plannedBlocks prev"
    by (simp add: m_def plannedBlocks_mergeAction)
next
  assume a: "a_replan action \<noteq> Some False"
  then show t: "a_replan (ensureReplan action) = Some True"
    by (cases "a_replan action") (auto simp: ensureReplan_def)
  then show "applyAction rnd clock sc (ensureReplan action) prev = rerun"
    by (simp add: applyAction_def replanNow_def Let_def m_def rnd'_def rerun_def
        mergeAction_ensureReplan added_ensureReplan)
next
  assume "a_replan action = Some False"
  then show "ensureReplan action = action" by (simp add: ensureReplan_def)
qed

lemma ensureReplan_boolean:
  "a_replan (ensureReplan action) = Some (a_replan action \<noteq> Some False)"
  by (cases "a_replan action") (simp_all add: ensureReplan_def)

text \<open>
  Claim C5. The action that is applied is the one the plan route returned, that is the
  proposed action after \<open>ensureReplan\<close>; its \<open>replan\<close> field is never absent. If the
  \<open>replan\<close> field (of the accepted action, or of the proposal it came from) is true or
  absent, \<open>applyAction\<close> re-runs the scheduler against the just-merged state and the plan it
  returns replaces the planned blocks, the rest of the merged state staying as it is; the
  re-run returns a plan whenever the merged block size is not 0. If \<open>replan\<close> is false, the
  merged state is returned with the planned blocks unchanged.
\<close>

theorem applyAction_accepted_replan:
  fixes rnd :: "nat \<Rightarrow> string \<times> string" and clock :: "nat \<Rightarrow> int" and sc :: "Task \<Rightarrow> real"
    and proposed :: AIAction and prev :: AppState
  defines "accepted \<equiv> ensureReplan proposed"
  defines "m \<equiv> mergeAction rnd clock accepted prev"
  defines "rnd' \<equiv> (\<lambda>k. rnd (length (addedBusy accepted) + length (addedTasks accepted) + k))"
  defines "replanned \<equiv> autoPlan rnd' sc (preferences m) (busyBlocks m) (tasks m)"
  shows "a_replan accepted \<noteq> None
    \<and> (a_replan accepted = Some True \<or> a_replan accepted = None \<longrightarrow>
          applyAction rnd clock sc accepted prev = map_option (\<lambda>pb. m\<lparr>plannedBlocks := pb\<rparr>) replanned)
    \<and> (a_replan accepted = Some False \<longrightarrow>
          applyAction rnd clock sc accepted prev = Some m \<and> plannedBlocks m = plannedBlocks prev)
    \<and> (a_replan proposed = Some True \<or> a_replan proposed = None \<longrightarrow>
          applyAction rnd clock sc accepted prev = map_option (\<lambda>pb. m\<lparr>plannedBlocks := pb\<rparr>) replanned)
    \<and> (a_replan proposed = Some False \<longrightarrow>
          applyAction rnd clock sc accepted prev = Some m \<and> plannedBlocks m = plannedBlocks prev)
    \<and> (workBlockMins (preferences m) \<noteq> 0 \<longrightarrow> (\<exists>pb. replanned = Some pb))
    \<and> (\<forall>next. a_replan proposed \<noteq> Some False \<and> applyAction rnd clock sc accepted prev = Some next \<longrightarrow>
          replanned = Some (plannedBlocks next) \<and> preferences next = preferences m
          \<and> busyBlocks next = busyBlocks m \<and> tasks next = tasks m)"
proof -
  note c = applyAction_replan [of accepted rnd clock sc prev, folded m_def rnd'_def, folded replanned_def]
  have b: "a_replan accepted = Some (a_replan proposed \<noteq> Some False)"
    unfolding accepted_def by (rule ensureReplan_boolean)
  have 1: "a_replan accepted \<noteq> None" unfolding b by simp
  have run: "applyAction rnd clock sc accepted prev = map_option (\<lambda>pb. m\<lparr>plannedBlocks := pb\<rparr>) replanned"
    if "a_replan accepted = Some True"
    using c [THEN conjunct1, rule_format, OF that] .
  have keep: "applyAction rnd clock sc accepted prev = Some m \<and> plannedBlocks m = plannedBlocks prev"
    if "a_replan accepted = Some False"
  proof -
    from that have "a_replan accepted \<noteq> Some True" by simp
    from c [THEN conjunct2, THEN conjunct1, rule_format, OF this] show ?thesis .
  qed
  have 2: "a_replan accepted = Some True \<or> a_replan accepted = None \<longrightarrow>
          applyAction rnd clock sc accepted prev = map_option (\<lambda>pb. m\<lparr>plannedBlocks := pb\<rparr>) replanned"
    using run 1 by blast
  have 3: "a_replan accepted = Some False \<longrightarrow>
          applyAction rnd clock sc accepted prev = Some m \<and> plannedBlocks m = plannedBlocks prev"
    using keep by blast
  have 4: "a_replan proposed = Some True \<or> a_replan proposed = None \<longrightarrow>
          applyAction rnd clock sc accepted prev = map_option (\<lambda>pb. m\<lparr>plannedBlocks := pb\<rparr>) replanned"
  proof
    assume "a_replan proposed = Some True \<or> a_replan proposed = None"
    then have "a_replan accepted = Some True" unfolding b by auto
    then show "applyAction rnd clock sc accepted prev = map_option (\<lambda>pb. m\<lparr>plannedBlocks := pb\<rparr>) replanned"
      by (rule run)
  qed
  have 5: "a_replan proposed = Some False \<longrightarrow>
          applyAction rnd clock sc accepted prev = Some m \<and> plannedBlocks m = plannedBlocks prev"
  proof
    assume "a_replan proposed = Some False"
    then have "a_replan accepted = Some False" unfolding b by simp
    then show "applyAction rnd clock sc accepted prev = Some m \<and> plannedBlocks m = plannedBlocks prev"
      by (rule keep)
  qed
  have 6: "workBlockMins (preferences m) \<noteq> 0 \<longrightarrow> (\<exists>pb. replanned = Some pb)"
    unfolding replanned_def using autoPlan_Some by blast
  have 7: "\<forall>next. a_replan proposed \<noteq> Some False \<and> applyAction rnd clock sc accepted prev = Some next \<longrightarrow>
          replanned = Some (plannedBlocks next) \<and> preferences next = preferences m
          \<and> busyBlocks next = busyBlocks m \<and> tasks next = tasks m"
  proof (intro allI impI)
    fix "next" assume a: "a_replan proposed \<noteq> Some False \<and> applyAction rnd clock sc accepted prev = Some next"
    then have "a_replan accepted = Some True" unfolding b by simp
    from run [OF this] a have "map_option (\<lambda>pb. m\<lparr>plannedBlocks := pb\<rparr>) replanned = Some next" by simp
    then obtain pb where "replanned = Some pb" "next = m\<lparr>plannedBlocks := pb\<rparr>" by auto
    then show "replanned = Some (plannedBlocks next) \<and> preferences next = preferences m
          \<and> busyBlocks next = busyBlocks m \<and> tasks next = tasks m" by simp
  qed
  show ?thesis by (intro conjI 1 2 3 4 5 6 7)
qed

theorem applyAction_accepted_replan_witness:
  "a_replan smallAction = None
   \<and> workBlockMins (preferences (mergeAction exampleRnd exampleClock (ensureReplan smallAction) exampleState)) \<noteq> 0
   \<and> map_option (\<lambda>s. map (\<lambda>p. (p_day p, p_startMin p, p_endMin p)) (plannedBlocks s))
        (applyAction exampleRnd exampleClock exampleScore (ensureReplan smallAction) exampleState)
       = Some [(Mon, 400, 430)]
   \<and> a_replan (smallAction\<lparr>a_replan := Some False\<rparr>) = Some False
   \<and> map_option plannedBlocks
        (applyAction exampleRnd exampleClock exampleScore
           (ensureReplan (smallAction\<lparr>a_replan := Some False\<rparr>)) exampleState)
       = Some (plannedBlocks exampleState)"
proof -
  have n: "a_replan smallAction = None" by (simp add: smallAction_def)
  have f: "a_replan (smallAction\<lparr>a_replan := Some False\<rparr>) = Some False" by simp
  have used: "length (addedBusy (ensureReplan smallAction)) + length (addedTasks (ensureReplan smallAction)) = 1"
    unfolding added_ensureReplan by (simp add: smallAction_def addedBusy_def addedTasks_def)
  have mg: "mergeAction exampleRnd exampleClock (ensureReplan smallAction) exampleState
      = mergeAction exampleRnd exampleClock smallAction exampleState"
    by (rule mergeAction_ensureReplan)
  have w: "workBlockMins (preferences (mergeAction exampleRnd exampleClock (ensureReplan smallAction) exampleState)) \<noteq> 0"
    unfolding mg small_merge by (simp add: examplePrefs_def)
  note t = applyAction_accepted_replan [of smallAction exampleRnd exampleClock exampleScore exampleState]
  have "applyAction exampleRnd exampleClock exampleScore (ensureReplan smallAction) exampleState =
       map_option (\<lambda>pb. (mergeAction exampleRnd exampleClock (ensureReplan smallAction) exampleState)\<lparr>plannedBlocks := pb\<rparr>)
         (autoPlan (\<lambda>k. exampleRnd (length (addedBusy (ensureReplan smallAction))
                 + length (addedTasks (ensureReplan smallAction)) + k)) exampleScore
           (preferences (mergeAction exampleRnd exampleClock (ensureReplan smallAction) exampleState))
           (busyBlocks (mergeAction exampleRnd exampleClock (ensureReplan smallAction) exampleState))
           (tasks (mergeAction exampleRnd exampleClock (ensureReplan smallAction) exampleState)))"
    by (rule t [THEN conjunct2, THEN conjunct2, THEN conjunct2, THEN conjunct1, rule_format, OF disjI2 [OF n]])
  then have r: "map_option (\<lambda>s. map (\<lambda>p. (p_day p, p_startMin p, p_endMin p)) (plannedBlocks s))
        (applyAction exampleRnd exampleClock exampleScore (ensureReplan smallAction) exampleState)
       = Some [(Mon, 400, 430)]"
    using small_rerun unfolding used mg small_merge by (simp add: option.map_comp comp_def)
  note t2 = applyAction_accepted_replan [of "smallAction\<lparr>a_replan := Some False\<rparr>" exampleRnd exampleClock
      exampleScore exampleState]
  from t2 [THEN conjunct2, THEN conjunct2, THEN conjunct2, THEN conjunct2, THEN conjunct1, rule_format, OF f]
  have k: "map_option plannedBlocks
        (applyAction exampleRnd exampleClock exampleScore
           (ensureReplan (smallAction\<lparr>a_replan := Some False\<rparr>)) exampleState)
       = Some (plannedBlocks exampleState)"
    by simp
  show ?thesis by (intro conjI n w r f k)
qed

subsection \<open>The confirmation gate\<close>

lemma POST_apply_value:
  "v \<noteq> JNull \<Longrightarrow> POST_apply lower (Some v) =
     (if \<not> (case field v ''userConfirmationText'' of
                Some (JStr text) \<Rightarrow> list_ex (\<lambda>w. str_includes (lower text) w) okWords
              | _ \<Rightarrow> False)
      then \<lparr>status = 400, body = ErrorBody ConfirmationRequired\<rparr>
      else if \<not> truthy (field v ''confirmationToken'') then \<lparr>status = 400, body = ErrorBody MissingToken\<rparr>
      else \<lparr>status = 200, body = OkBody (field v ''action'')\<rparr>)"
  by (cases v) (simp_all add: POST_apply_def Let_def)

lemma POST_apply_thrown:
  "POST_apply lower None = \<lparr>status = 500, body = ErrorBody Thrown\<rparr>"
  "POST_apply lower (Some JNull) = \<lparr>status = 500, body = ErrorBody Thrown\<rparr>"
  by (simp_all add: POST_apply_def)

lemma confirmation_text_ok:
  "(case x of Some (JStr text) \<Rightarrow> list_ex (\<lambda>w. str_includes (lower text) w) okWords | _ \<Rightarrow> False)
     \<longleftrightarrow> (\<exists>text. x = Some (JStr text) \<and> (\<exists>w \<in> set okWords. str_includes (lower text) w))"
  by (simp add: list_ex_iff split: option.splits json.splits)

text \<open>
  Claim C4. The apply route answers \<open>{ ok: true, action }\<close> with status 200 if and only if the
  request body has a \<open>userConfirmationText\<close> that is a string whose lower-case form contains
  one of the words of the fixed vocabulary, and a truthy \<open>confirmationToken\<close>; the action
  returned is the one of the request. In every other case the answer is an error body with
  status 400 or 500; in particular whenever the token is absent or otherwise not truthy,
  whatever the utterance.
\<close>

theorem POST_apply_gate:
  fixes lower :: "string \<Rightarrow> string" and req :: "json option"
  defines "accepted \<equiv> (\<exists>v text. req = Some v
               \<and> field v ''userConfirmationText'' = Some (JStr text)
               \<and> (\<exists>w \<in> set okWords. str_includes (lower text) w)
               \<and> truthy (field v ''confirmationToken''))"
  shows "((\<exists>a. POST_apply lower req = \<lparr>status = 200, body = OkBody a\<rparr>) \<longleftrightarrow> accepted)
       \<and> (accepted \<longrightarrow> (\<exists>v. req = Some v
             \<and> POST_apply lower req = \<lparr>status = 200, body = OkBody (field v ''action'')\<rparr>))
       \<and> (\<not> accepted \<longrightarrow> status (POST_apply lower req) \<in> {400, 500}
             \<and> (\<exists>e. body (POST_apply lower req) = ErrorBody e))
       \<and> (\<forall>v. req = Some v \<and> \<not> truthy (field v ''confirmationToken'') \<longrightarrow>
             status (POST_apply lower req) \<in> {400, 500}
             \<and> (\<exists>e. body (POST_apply lower req) = ErrorBody e))"
proof -
  have acc: "\<exists>v. req = Some v
             \<and> POST_apply lower req = \<lparr>status = 200, body = OkBody (field v ''action'')\<rparr>" if accepted
  proof -
    from that obtain v tx where v: "req = Some v" "field v ''userConfirmationText'' = Some (JStr tx)"
      "\<exists>w \<in> set okWords. str_includes (lower tx) w" "truthy (field v ''confirmationToken'')"
      unfolding accepted_def by blast
    from v(2) have "v \<noteq> JNull" by auto
    from POST_apply_value [OF this, of lower] v show ?thesis
      by (simp add: list_ex_iff)
  qed
  have rej: "status (POST_apply lower req) \<in> {400, 500}
             \<and> (\<exists>e. body (POST_apply lower req) = ErrorBody e)" if n: "\<not> accepted"
  proof (cases req)
    case None
    then show ?thesis by (simp add: POST_apply_thrown)
  next
    case (Some v)
    show ?thesis
    proof (cases "v = JNull")
      case True
      with Some show ?thesis by (simp add: POST_apply_thrown)
    next
      case False
      from n Some have "\<not> ((\<exists>text. field v ''userConfirmationText'' = Some (JStr text)
           \<and> (\<exists>w \<in> set okWords. str_includes (lower text) w)) \<and> truthy (field v ''confirmationToken''))"
        unfolding accepted_def by blast
      then show ?thesis
        unfolding Some POST_apply_value [OF False] confirmation_text_ok by auto
    qed
  qed
  have tok: "\<not> accepted" if "req = Some v" "\<not> truthy (field v ''confirmationToken'')" for v
    using that unfolding accepted_def by auto
  have iff: "(\<exists>a. POST_apply lower req = \<lparr>status = 200, body = OkBody a\<rparr>) \<longleftrightarrow> accepted"
  proof
    assume "\<exists>a. POST_apply lower req = \<lparr>status = 200, body = OkBody a\<rparr>"
    then obtain a where "POST_apply lower req = \<lparr>status = 200, body = OkBody a\<rparr>" ..
    then have "body (POST_apply lower req) = OkBody a" by simp
    with rej show accepted by auto
  next
    assume accepted
    with acc show "\<exists>a. POST_apply lower req = \<lparr>status = 200, body = OkBody a\<rparr>" by blast
  qed
  from iff acc rej tok show ?thesis by blast
qed

lemma asciiLower_examples:
  "asciiLower ''OK, dale'' = ''ok, dale''"
  "asciiLower ''nope'' = ''nope''"
  "asciiLower ''confirmo'' = ''confirmo''"
  by (simp_all add: asciiLower_def)

theorem POST_apply_gate_witness:
  "POST_apply asciiLower (Some confirmRequest) =
      \<lparr>status = 200, body = OkBody (Some (JObj [(''replan'', JBool True)]))\<rparr>
   \<and> status (POST_apply asciiLower (Some nopeRequest)) = 400
   \<and> body (POST_apply asciiLower (Some nopeRequest)) = ErrorBody ConfirmationRequired
   \<and> \<not> truthy (field tokenlessRequest ''confirmationToken'')
   \<and> status (POST_apply asciiLower (Some tokenlessRequest)) \<in> {400, 500}
   \<and> (\<exists>e. body (POST_apply asciiLower (Some tokenlessRequest)) = ErrorBody e)"
proof -
  have a: "\<exists>v text. Some confirmRequest = Some v
               \<and> field v ''userConfirmationText'' = Some (JStr text)
               \<and> (\<exists>w \<in> set okWords. str_includes (asciiLower text) w)
               \<and> truthy (field v ''confirmationToken'')"
    by (simp add: confirmRequest_def asciiLower_examples okWords_def)
  have n: "\<not> (\<exists>v text. Some nopeRequest = Some v
               \<and> field v ''userConfirmationText'' = Some (JStr text)
               \<and> (\<exists>w \<in> set okWords. str_includes (asciiLower text) w)
               \<and> truthy (field v ''confirmationToken''))"
    by (simp add: nopeRequest_def asciiLower_examples okWords_def)
  have t: "\<not> truthy (field tokenlessRequest ''confirmationToken'')"
    by (simp add: tokenlessRequest_def)
  from POST_apply_gate [of asciiLower "Some confirmRequest"] a
  have 1: "POST_apply asciiLower (Some confirmRequest) =
      \<lparr>status = 200, body = OkBody (Some (JObj [(''replan'', JBool True)]))\<rparr>"
    by (simp add: confirmRequest_def)
  from POST_apply_gate [of asciiLower "Some nopeRequest"] n
  have "status (POST_apply asciiLower (Some nopeRequest)) \<in> {400, 500}
        \<and> (\<exists>e. body (POST_apply asciiLower (Some nopeRequest)) = ErrorBody e)"
    by blast
  moreover have "POST_apply asciiLower (Some nopeRequest) = \<lparr>status = 400, body = ErrorBody ConfirmationRequired\<rparr>"
    by (simp add: POST_apply_def nopeRequest_def asciiLower_examples okWords_def)
  ultimately have 2: "status (POST_apply asciiLower (Some nopeRequest)) = 400"
      "body (POST_apply asciiLower (Some nopeRequest)) = ErrorBody ConfirmationRequired"
    by simp_all
  from POST_apply_gate [of asciiLower "Some tokenlessRequest"] t
  have 3: "status (POST_apply asciiLower (Some tokenlessRequest)) \<in> {400, 500}
        \<and> (\<exists>e. body (POST_apply asciiLower (Some tokenlessRequest)) = ErrorBody e)"
    by blast
  from 1 2 3 t show ?thesis by blast
qed

subsection \<open>The free grid\<close>

lemma cutSlot_bounds:
  "p \<in> set (cutSlot b s) \<Longrightarrow> s_start s \<le> s_start p \<and> s_end p \<le> s_end s"
  by (auto simp: cutSlot_def split: if_splits)

lemma cutSlot_avoid:
  "p \<in> set (cutSlot b s) \<Longrightarrow> s_end p \<le> b_startMin b \<or> b_endMin b \<le> s_start p"
  by (auto simp: cutSlot_def split: if_splits)

lemma cutSlot_sep:
  "b_startMin b \<le> b_endMin b \<Longrightarrow> sorted_wrt (\<lambda>x y. s_end x \<le> s_start y) (cutSlot b s)"
  by (auto simp: cutSlot_def)

lemma cutSlot_complete:
  assumes "s_start s \<le> lo" "hi \<le> s_end s" "lo < hi" "b_endMin b \<le> lo \<or> hi \<le> b_startMin b"
  shows "\<exists>p \<in> set (cutSlot b s). s_start p \<le> lo \<and> hi \<le> s_end p"
  using assms by (auto simp: cutSlot_def)

lemma concat_cut_sep:
  assumes "b_startMin b \<le> b_endMin b" "sorted_wrt (\<lambda>x y. s_end x \<le> s_start y) xs"
  shows "sorted_wrt (\<lambda>x y. s_end x \<le> s_start y) (concat (map (cutSlot b) xs))"
  using assms(2)
proof (induction xs)
  case Nil then show ?case by simp
next
  case (Cons s xs)
  have "s_end p \<le> s_start q" if "p \<in> set (cutSlot b s)" "q \<in> set (cutSlot b t)" "t \<in> set xs" for p q t
  proof -
    have "s_end p \<le> s_end s" using cutSlot_bounds [OF that(1)] by simp
    also have "\<dots> \<le> s_start t" using Cons.prems that(3) by simp
    also have "\<dots> \<le> s_start q" using cutSlot_bounds [OF that(2)] by simp
    finally show ?thesis .
  qed
  with Cons cutSlot_sep [OF assms(1), of s] show ?case
    by (auto simp: sorted_wrt_append)
qed

lemma sep_sorted_start:
  assumes "sorted_wrt (\<lambda>x y. s_end x \<le> s_start y) xs" "\<forall>s \<in> set xs. s_start s \<le> s_end s"
  shows "sorted (map s_start xs)"
  using assms by (induction xs) (auto simp: order_trans)

lemma cutDay_sep_eq:
  assumes "b_startMin b \<le> b_endMin b" "sorted_wrt (\<lambda>x y. s_end x \<le> s_start y) xs"
  shows "cutDay b xs = filter (\<lambda>x. s_end x - s_start x \<ge> 15) (concat (map (cutSlot b) xs))"
proof -
  let ?ys = "filter (\<lambda>x. s_end x - s_start x \<ge> 15) (concat (map (cutSlot b) xs))"
  have "sorted_wrt (\<lambda>x y. s_end x \<le> s_start y) ?ys"
    using concat_cut_sep [OF assms] by (rule sorted_wrt_filter)
  moreover have "\<forall>s \<in> set ?ys. s_start s \<le> s_end s" by auto
  ultimately have "sorted (map s_start ?ys)" by (rule sep_sorted_start)
  then show ?thesis by (simp add: cutDay_def Let_def sort_key_id_if_sorted)
qed

lemma cutDay_sep:
  assumes "b_startMin b \<le> b_endMin b" "sorted_wrt (\<lambda>x y. s_end x \<le> s_start y) xs"
  shows "sorted_wrt (\<lambda>x y. s_end x \<le> s_start y) (cutDay b xs)"
  unfolding cutDay_sep_eq [OF assms]
  using concat_cut_sep [OF assms] by (rule sorted_wrt_filter)

lemma set_cutDay:
  "set (cutDay b xs) = {p. \<exists>s \<in> set xs. p \<in> set (cutSlot b s) \<and> 15 \<le> s_end p - s_start p}"
  by (auto simp: cutDay_def Let_def)

lemma buildFreeGrid_day_aux:
  "foldl subtractBusy f bs d = foldl (\<lambda>xs b. cutDay b xs) (f d) (filter (\<lambda>b. b_day b = d) bs)"
  by (induction bs arbitrary: f) (auto simp: subtractBusy_def)

lemma buildFreeGrid_day:
  "buildFreeGrid prefs bs d =
     foldl (\<lambda>xs b. cutDay b xs) [\<lparr>s_start = startHour prefs * 60, s_end = endHour prefs * 60\<rparr>]
       (filter (\<lambda>b. b_day b = d) bs)"
  by (simp add: buildFreeGrid_def Let_def buildFreeGrid_day_aux)

lemma fold_sep:
  assumes "\<forall>b \<in> set bs. b_startMin b \<le> b_endMin b" "sorted_wrt (\<lambda>x y. s_end x \<le> s_start y) xs"
  shows "sorted_wrt (\<lambda>x y. s_end x \<le> s_start y) (foldl (\<lambda>xs b. cutDay b xs) xs bs)"
  using assms by (induction bs arbitrary: xs) (auto simp: cutDay_sep)

lemma fold_len:
  assumes "bs \<noteq> [] \<or> (\<forall>s \<in> set xs. 15 \<le> s_end s - s_start s)"
    and "p \<in> set (foldl (\<lambda>xs b. cutDay b xs) xs bs)"
  shows "15 \<le> s_end p - s_start p"
  using assms
proof (induction bs arbitrary: xs)
  case Nil then show ?case by simp
next
  case (Cons b bs)
  have "\<forall>s \<in> set (cutDay b xs). 15 \<le> s_end s - s_start s" by (simp add: set_cutDay)
  with Cons.IH [of "cutDay b xs"] Cons.prems(2) show ?case by simp
qed

lemma cutDay_bounds:
  "p \<in> set (cutDay b xs) \<Longrightarrow> \<exists>s \<in> set xs. s_start s \<le> s_start p \<and> s_end p \<le> s_end s"
  using cutSlot_bounds by (auto simp: set_cutDay)

lemma fold_bounds:
  "p \<in> set (foldl (\<lambda>xs b. cutDay b xs) xs bs) \<Longrightarrow>
     \<exists>s \<in> set xs. s_start s \<le> s_start p \<and> s_end p \<le> s_end s"
proof (induction bs arbitrary: xs)
  case Nil then show ?case by auto
next
  case (Cons b bs)
  then obtain q where q: "q \<in> set (cutDay b xs)" "s_start q \<le> s_start p" "s_end p \<le> s_end q"
    by fastforce
  from cutDay_bounds [OF q(1)] obtain s where "s \<in> set xs" "s_start s \<le> s_start q" "s_end q \<le> s_end s"
    by blast
  with q show ?case by (intro bexI [of _ s]) auto
qed

lemma fold_avoid:
  assumes "p \<in> set (foldl (\<lambda>xs b. cutDay b xs) xs bs)" "b \<in> set bs"
  shows "s_end p \<le> b_startMin b \<or> b_endMin b \<le> s_start p"
  using assms
proof (induction bs arbitrary: xs)
  case Nil then show ?case by simp
next
  case (Cons c bs)
  show ?case
  proof (cases "b \<in> set bs")
    case True
    with Cons.IH [of "cutDay c xs"] Cons.prems(1) show ?thesis by simp
  next
    case False
    with Cons.prems(2) have bc: "b = c" by simp
    from Cons.prems(1) have "p \<in> set (foldl (\<lambda>xs b. cutDay b xs) (cutDay c xs) bs)" by simp
    from fold_bounds [OF this] obtain q where q: "q \<in> set (cutDay c xs)"
      "s_start q \<le> s_start p" "s_end p \<le> s_end q" by blast
    from q(1) obtain s where "q \<in> set (cutSlot c s)" by (auto simp: set_cutDay)
    from cutSlot_avoid [OF this] q(2,3) show ?thesis unfolding bc by auto
  qed
qed

lemma fold_complete:
  assumes "s \<in> set xs" "s_start s \<le> lo" "hi \<le> s_end s" "lo + 15 \<le> hi"
    and "\<forall>b \<in> set bs. b_endMin b \<le> lo \<or> hi \<le> b_startMin b"
  shows "\<exists>p \<in> set (foldl (\<lambda>xs b. cutDay b xs) xs bs). s_start p \<le> lo \<and> hi \<le> s_end p"
  using assms
proof (induction bs arbitrary: xs s)
  case Nil then show ?case by auto
next
  case (Cons b bs)
  have "b_endMin b \<le> lo \<or> hi \<le> b_startMin b" using Cons.prems(5) by simp
  with cutSlot_complete [of s lo hi b] Cons.prems(2-4)
  obtain q where q: "q \<in> set (cutSlot b s)" "s_start q \<le> lo" "hi \<le> s_end q" by auto
  with Cons.prems(1,4) have "q \<in> set (cutDay b xs)" by (auto simp: set_cutDay)
  from Cons.IH [OF this q(2,3) Cons.prems(4)] Cons.prems(5) show ?case by simp
qed

lemma sorted_wrt_set_unique:
  assumes "sorted_wrt R xs" "sorted_wrt R ys" "set xs = set ys" "\<And>x y. R x y \<Longrightarrow> \<not> R y x"
  shows "xs = ys"
  using assms(1-3)
proof (induction xs arbitrary: ys)
  case Nil then show ?case by simp
next
  case (Cons x xs)
  then obtain y ys' where ys: "ys = y # ys'" by (cases ys) auto
  have irr: "\<not> R z z" for z using assms(4) by blast
  have xy: "x = y"
  proof (rule ccontr)
    assume n: "x \<noteq> y"
    with Cons.prems(3) ys have "x \<in> set ys'" "y \<in> set xs" by auto
    with Cons.prems(1,2) ys have "R y x" "R x y" by auto
    with assms(4) show False by blast
  qed
  have "x \<notin> set xs" "y \<notin> set ys'" using Cons.prems(1,2) ys irr by auto
  with Cons.prems(3) ys xy have "set xs = set ys'" by auto
  with Cons.IH [of ys'] Cons.prems(1,2) ys xy show ?case by simp
qed

lemma sep_same:
  assumes "sorted_wrt (\<lambda>x y. s_end x \<le> s_start y) xs" "p \<in> set xs" "q \<in> set xs"
    "s_start q \<le> s_start p" "s_start p < s_end p" "s_end p \<le> s_end q"
  shows "p = q"
proof (rule ccontr)
  assume "p \<noteq> q"
  with assms(2,3) obtain i j where ij: "i < length xs" "j < length xs" "xs ! i = p" "xs ! j = q" "i \<noteq> j"
    by (metis in_set_conv_nth)
  then consider "i < j" | "j < i" by linarith
  then show False
  proof cases
    case 1
    with assms(1) ij have "s_end p \<le> s_start q" by (auto simp: sorted_wrt_iff_nth_less)
    with assms(4,5) show False by simp
  next
    case 2
    with assms(1) ij have "s_end q \<le> s_start p" by (auto simp: sorted_wrt_iff_nth_less)
    with assms(5,6) show False by simp
  qed
qed

lemma fold_subset:
  assumes wf: "\<forall>b \<in> set bs. b_startMin b \<le> b_endMin b" "\<forall>b \<in> set bs'. b_startMin b \<le> b_endMin b"
    and eq: "set bs = set bs'" and ne: "bs \<noteq> []"
    and p: "p \<in> set (foldl (\<lambda>xs b. cutDay b xs) [w] bs)"
  shows "p \<in> set (foldl (\<lambda>xs b. cutDay b xs) [w] bs')"
proof -
  let ?G = "foldl (\<lambda>xs b. cutDay b xs) [w] bs" and ?G' = "foldl (\<lambda>xs b. cutDay b xs) [w] bs'"
  from ne eq have ne': "bs' \<noteq> []" by auto
  have len: "15 \<le> s_end p - s_start p" using fold_len [OF _ p] ne by simp
  from fold_bounds [OF p] have w: "s_start w \<le> s_start p" "s_end p \<le> s_end w" by auto
  have av: "\<forall>b \<in> set bs'. b_endMin b \<le> s_start p \<or> s_end p \<le> b_startMin b"
    using fold_avoid [OF p] eq by auto
  from fold_complete [of w "[w]" "s_start p" "s_end p" bs'] w len av
  obtain q where q: "q \<in> set ?G'" "s_start q \<le> s_start p" "s_end p \<le> s_end q" by auto
  have lenq: "15 \<le> s_end q - s_start q" using fold_len [OF _ q(1)] ne' by simp
  from fold_bounds [OF q(1)] have wq: "s_start w \<le> s_start q" "s_end q \<le> s_end w" by auto
  have avq: "\<forall>b \<in> set bs. b_endMin b \<le> s_start q \<or> s_end q \<le> b_startMin b"
    using fold_avoid [OF q(1)] eq by auto
  from fold_complete [of w "[w]" "s_start q" "s_end q" bs] wq lenq avq
  obtain r where r: "r \<in> set ?G" "s_start r \<le> s_start q" "s_end q \<le> s_end r" by auto
  have sep: "sorted_wrt (\<lambda>x y. s_end x \<le> s_start y) ?G" using fold_sep [OF wf(1)] by simp
  have "p = r" using sep_same [OF sep p r(1)] r(2,3) q(2,3) len by simp
  with r q have "s_start q = s_start p" "s_end q = s_end p" by auto
  then have "q = p" by simp
  with q(1) show ?thesis by simp
qed

lemma fold_set_unique:
  assumes wf: "\<forall>b \<in> set bs. b_startMin b \<le> b_endMin b" and eq: "set bs = set bs'"
  shows "foldl (\<lambda>xs b. cutDay b xs) [w] bs = foldl (\<lambda>xs b. cutDay b xs) [w] bs'"
proof (cases "bs = []")
  case True
  with eq show ?thesis by simp
next
  case False
  with eq have ne': "bs' \<noteq> []" by auto
  let ?G = "foldl (\<lambda>xs b. cutDay b xs) [w] bs" and ?G' = "foldl (\<lambda>xs b. cutDay b xs) [w] bs'"
  from wf eq have wf': "\<forall>b \<in> set bs'. b_startMin b \<le> b_endMin b" by simp
  have s: "set ?G = set ?G'"
    using fold_subset [OF wf wf' eq False] fold_subset [OF wf' wf eq [symmetric] ne'] by blast
  have sep: "sorted_wrt (\<lambda>x y. s_end x \<le> s_start y) ?G" "sorted_wrt (\<lambda>x y. s_end x \<le> s_start y) ?G'"
    using fold_sep [OF wf] fold_sep [OF wf'] by simp_all
  have st: "sorted_wrt (\<lambda>x y. s_start x < s_start y) ?G"
    using sep(1) fold_len [of bs "[w]"] False
    by (intro sorted_wrt_mono_rel [OF _ sep(1)]) fastforce
  have st': "sorted_wrt (\<lambda>x y. s_start x < s_start y) ?G'"
    using sep(2) fold_len [of bs' "[w]"] ne'
    by (intro sorted_wrt_mono_rel [OF _ sep(2)]) fastforce
  show ?thesis
    by (rule sorted_wrt_set_unique [OF st st' s]) simp
qed

text \<open>
  For busy blocks none of which ends before it starts, and all preferences: two lists of busy
  blocks with the same multiset give the same free grid.
\<close>

lemma buildFreeGrid_permutation:
  assumes "mset bs = mset bs'" and "\<forall>b \<in> set bs. b_startMin b \<le> b_endMin b"
  shows "buildFreeGrid prefs bs = buildFreeGrid prefs bs'"
proof
  fix d
  from assms(1) have "set bs = set bs'" by (rule mset_eq_setD)
  then have s: "set (filter (\<lambda>b. b_day b = d) bs) = set (filter (\<lambda>b. b_day b = d) bs')" by simp
  from assms(2) have wf: "\<forall>b \<in> set (filter (\<lambda>b. b_day b = d) bs). b_startMin b \<le> b_endMin b" by simp
  show "buildFreeGrid prefs bs d = buildFreeGrid prefs bs' d"
    unfolding buildFreeGrid_day by (rule fold_set_unique [OF wf s])
qed

lemma sorted_wrt_nth_disjoint:
  assumes "sorted_wrt (\<lambda>x y. s_end x \<le> s_start y) xs" "i < j" "j < length xs"
  shows "slotSet (xs ! i) \<inter> slotSet (xs ! j) = {}"
proof -
  from assms have "s_end (xs ! i) \<le> s_start (xs ! j)" by (simp add: sorted_wrt_iff_nth_less)
  then show ?thesis by (auto simp: slotSet_def)
qed

lemma in_dayBusy:
  "x \<in> dayBusy bs d \<longleftrightarrow> (\<exists>b \<in> set (filter (\<lambda>b. b_day b = d) bs). b_startMin b \<le> x \<and> x < b_endMin b)"
  by (auto simp: dayBusy_def busySet_def)

text \<open>
  Claim C1, amended. With \<open>startHour < endHour\<close> and busy blocks that start before they end,
  the free intervals of every day are pairwise disjoint, ascending by start (each ends no later
  than the next starts), and at least 15 minutes long each. Their union is the window minus that
  day's busy blocks, less the free stretches shorter than 15 minutes, which are dropped: the
  union lies within the window minus the busy blocks, and every stretch of at least 15 minutes
  that lies within the window minus the busy blocks lies within one of the intervals.
\<close>

theorem buildFreeGrid_day_intervals:
  fixes prefs :: Preferences and bs :: "BusyBlock list" and d :: Day
  defines "G \<equiv> buildFreeGrid prefs bs d"
  assumes hours: "startHour prefs < endHour prefs"
    and wf: "\<forall>b \<in> set bs. b_startMin b < b_endMin b"
  shows "(\<forall>i j. i < j \<and> j < length G \<longrightarrow> slotSet (G ! i) \<inter> slotSet (G ! j) = {})
    \<and> sorted (map s_start G)
    \<and> sorted_wrt (\<lambda>x y. s_end x \<le> s_start y) G
    \<and> (\<forall>s \<in> set G. 15 \<le> s_end s - s_start s)
    \<and> \<Union> (slotSet ` set G) \<subseteq> window prefs - dayBusy bs d
    \<and> (\<forall>lo hi. lo + 15 \<le> hi \<and> {lo ..< hi} \<subseteq> window prefs - dayBusy bs d \<longrightarrow>
          (\<exists>s \<in> set G. {lo ..< hi} \<subseteq> slotSet s))"
proof -
  let ?w = "\<lparr>s_start = startHour prefs * 60, s_end = endHour prefs * 60\<rparr>"
  let ?bs = "filter (\<lambda>b. b_day b = d) bs"
  have G: "G = foldl (\<lambda>xs b. cutDay b xs) [?w] ?bs" by (simp add: G_def buildFreeGrid_day)
  have wf': "\<forall>b \<in> set ?bs. b_startMin b \<le> b_endMin b" using wf by auto
  have sep: "sorted_wrt (\<lambda>x y. s_end x \<le> s_start y) G"
    unfolding G by (rule fold_sep [OF wf']) simp
  have len: "\<forall>s \<in> set G. 15 \<le> s_end s - s_start s"
  proof
    fix s assume "s \<in> set G"
    then have "s \<in> set (foldl (\<lambda>xs b. cutDay b xs) [?w] ?bs)" by (simp only: G)
    moreover have "\<forall>s \<in> set [?w]. 15 \<le> s_end s - s_start s" using hours by simp
    ultimately show "15 \<le> s_end s - s_start s" using fold_len by blast
  qed
  have dis: "\<forall>i j. i < j \<and> j < length G \<longrightarrow> slotSet (G ! i) \<inter> slotSet (G ! j) = {}"
    using sorted_wrt_nth_disjoint [OF sep] by blast
  have srt: "sorted (map s_start G)"
    by (rule sep_sorted_start [OF sep]) (use len in fastforce)
  have sound: "\<Union> (slotSet ` set G) \<subseteq> window prefs - dayBusy bs d"
  proof
    fix x assume "x \<in> \<Union> (slotSet ` set G)"
    then obtain p where p: "p \<in> set G" "s_start p \<le> x" "x < s_end p" by (auto simp: slotSet_def)
    from p(1) have pf: "p \<in> set (foldl (\<lambda>xs b. cutDay b xs) [?w] ?bs)" by (simp only: G)
    from fold_bounds [OF pf] p(2,3) have "x \<in> window prefs" by (auto simp: window_def)
    moreover have "x \<notin> dayBusy bs d"
    proof
      assume "x \<in> dayBusy bs d"
      then obtain b where b: "b \<in> set ?bs" "b_startMin b \<le> x" "x < b_endMin b"
        unfolding in_dayBusy by blast
      from fold_avoid [OF pf b(1)] p(2,3) b(2,3) show False by auto
    qed
    ultimately show "x \<in> window prefs - dayBusy bs d" by simp
  qed
  have complete: "\<exists>s \<in> set G. {lo ..< hi} \<subseteq> slotSet s"
    if lh: "lo + 15 \<le> hi" and sub: "{lo ..< hi} \<subseteq> window prefs - dayBusy bs d" for lo hi
  proof -
    have "lo \<in> {lo ..< hi}" "hi - 1 \<in> {lo ..< hi}" using lh by auto
    with sub have "lo \<in> window prefs" "hi - 1 \<in> window prefs" by blast+
    then have w: "s_start ?w \<le> lo" "hi \<le> s_end ?w" by (auto simp: window_def)
    have av: "\<forall>b \<in> set ?bs. b_endMin b \<le> lo \<or> hi \<le> b_startMin b"
    proof (rule ballI, rule ccontr)
      fix b assume b: "b \<in> set ?bs" and n: "\<not> (b_endMin b \<le> lo \<or> hi \<le> b_startMin b)"
      from b wf have bw: "b_startMin b < b_endMin b" by auto
      let ?x = "max lo (b_startMin b)"
      have "?x \<in> {lo ..< hi}" using n lh by auto
      moreover have "?x \<in> dayBusy bs d" unfolding in_dayBusy using b bw n by (intro bexI [of _ b]) auto
      ultimately show False using sub by blast
    qed
    from fold_complete [of ?w "[?w]" lo hi ?bs] w lh av
    obtain p where "p \<in> set G" "s_start p \<le> lo" "hi \<le> s_end p" unfolding G by auto
    then show ?thesis by (intro bexI [of _ p]) (auto simp: slotSet_def)
  qed
  from dis srt sep len sound complete show ?thesis by blast
qed

lemmas example_defs2 = examplePrefs_def exampleBusy_def busyClass_def busyGym_def

lemma example_grid_Mon:
  "buildFreeGrid examplePrefs exampleBusy Mon = [\<lparr>s_start = 400, s_end = 1320\<rparr>]"
  by (simp add: buildFreeGrid_def subtractBusy_def cutDay_def cutSlot_def Let_def example_defs2)

text \<open>
  Claim C1, as stated, fails in its last part: the 10 free minutes from 06:00 to the busy block
  at 06:10 belong to the window minus the busy blocks, and to no interval of the grid.
\<close>

theorem buildFreeGrid_union_counterexample:
  "startHour examplePrefs < endHour examplePrefs
   \<and> b_startMin (hd exampleBusy) < b_endMin (hd exampleBusy) \<and> tl exampleBusy = []
   \<and> buildFreeGrid examplePrefs exampleBusy Mon = [\<lparr>s_start = 400, s_end = 1320\<rparr>]
   \<and> 365 \<in> window examplePrefs - dayBusy exampleBusy Mon
   \<and> 365 \<notin> \<Union> (slotSet ` set (buildFreeGrid examplePrefs exampleBusy Mon))
   \<and> \<Union> (slotSet ` set (buildFreeGrid examplePrefs exampleBusy Mon))
       \<noteq> window examplePrefs - dayBusy exampleBusy Mon"
proof -
  have a: "365 \<in> window examplePrefs - dayBusy exampleBusy Mon"
    by (simp add: window_def in_dayBusy example_defs2)
  have b: "365 \<notin> \<Union> (slotSet ` set (buildFreeGrid examplePrefs exampleBusy Mon))"
    unfolding example_grid_Mon by (simp add: slotSet_def)
  from a b have "\<Union> (slotSet ` set (buildFreeGrid examplePrefs exampleBusy Mon))
       \<noteq> window examplePrefs - dayBusy exampleBusy Mon" by blast
  with a b example_grid_Mon show ?thesis by (simp add: example_defs2)
qed

theorem buildFreeGrid_day_intervals_witness:
  "startHour examplePrefs < endHour examplePrefs
   \<and> b_startMin busyClass < b_endMin busyClass \<and> b_startMin busyGym < b_endMin busyGym
   \<and> buildFreeGrid examplePrefs [busyGym, busyClass] Mon =
        [\<lparr>s_start = 360, s_end = 540\<rparr>, \<lparr>s_start = 700, s_end = 1320\<rparr>]
   \<and> sorted (map s_start (buildFreeGrid examplePrefs [busyGym, busyClass] Mon))
   \<and> \<Union> (slotSet ` set (buildFreeGrid examplePrefs [busyGym, busyClass] Mon))
        \<subseteq> window examplePrefs - dayBusy [busyGym, busyClass] Mon
   \<and> (\<exists>s \<in> set (buildFreeGrid examplePrefs [busyGym, busyClass] Mon). {400 ..< 415} \<subseteq> slotSet s)"
proof -
  have h: "startHour examplePrefs < endHour examplePrefs" by (simp add: examplePrefs_def)
  have w: "\<forall>b \<in> set [busyGym, busyClass]. b_startMin b < b_endMin b" by (simp add: example_defs2)
  have g: "buildFreeGrid examplePrefs [busyGym, busyClass] Mon =
        [\<lparr>s_start = 360, s_end = 540\<rparr>, \<lparr>s_start = 700, s_end = 1320\<rparr>]"
    by (simp add: buildFreeGrid_def subtractBusy_def cutDay_def cutSlot_def Let_def example_defs2)
  have f: "(400::int) + 15 \<le> 415 \<and> {400 ..< 415} \<subseteq> window examplePrefs - dayBusy [busyGym, busyClass] Mon"
    by (auto simp: window_def in_dayBusy example_defs2)
  note t = buildFreeGrid_day_intervals [OF h w, of Mon]
  from t have 1: "sorted (map s_start (buildFreeGrid examplePrefs [busyGym, busyClass] Mon))" by blast
  from t have 2: "\<Union> (slotSet ` set (buildFreeGrid examplePrefs [busyGym, busyClass] Mon))
        \<subseteq> window examplePrefs - dayBusy [busyGym, busyClass] Mon" by blast
  from t f have 3: "\<exists>s \<in> set (buildFreeGrid examplePrefs [busyGym, busyClass] Mon). {400 ..< 415} \<subseteq> slotSet s"
    by blast
  from h w g 1 2 3 show ?thesis by simp
qed

lemma buildFreeGrid_permutation_witness:
  "mset [busyGym, busyClass] = mset [busyClass, busyGym]
   \<and> b_startMin busyClass \<le> b_endMin busyClass \<and> b_startMin busyGym \<le> b_endMin busyGym
   \<and> buildFreeGrid examplePrefs [busyGym, busyClass] = buildFreeGrid examplePrefs [busyClass, busyGym]
   \<and> buildFreeGrid examplePrefs [busyClass, busyGym] Mon =
        [\<lparr>s_start = 360, s_end = 540\<rparr>, \<lparr>s_start = 700, s_end = 1320\<rparr>]"
proof -
  have m: "mset [busyGym, busyClass] = mset [busyClass, busyGym]" by simp
  have w: "\<forall>b \<in> set [busyGym, busyClass]. b_startMin b \<le> b_endMin b" by (simp add: example_defs2)
  have g: "buildFreeGrid examplePrefs [busyClass, busyGym] Mon =
        [\<lparr>s_start = 360, s_end = 540\<rparr>, \<lparr>s_start = 700, s_end = 1320\<rparr>]"
    by (simp add: buildFreeGrid_def subtractBusy_def cutDay_def cutSlot_def Let_def example_defs2)
  from buildFreeGrid_permutation [OF m w, of examplePrefs] m w g show ?thesis by simp
qed

subsection \<open>The placement loops\<close>

lemma firstFit_split:
  "firstFit mins segs = Some si \<Longrightarrow>
     \<exists>pre s post. segs = pre @ s # post \<and> length pre = si \<and> mins \<le> s_end s - s_start s
        \<and> (\<forall>x \<in> set pre. \<not> mins \<le> s_end x - s_start x)"
proof (induction segs arbitrary: si)
  case Nil then show ?case by simp
next
  case (Cons a segs)
  show ?case
  proof (cases "mins \<le> s_end a - s_start a")
    case True
    with Cons.prems have "si = 0" by simp
    with True show ?thesis by (intro exI [of _ "[]"] exI [of _ a] exI [of _ segs]) simp
  next
    case False
    with Cons.prems obtain sj where sj: "firstFit mins segs = Some sj" "si = Suc sj" by auto
    from Cons.IH [OF sj(1)] obtain pre s post where
      "segs = pre @ s # post" "length pre = sj" "mins \<le> s_end s - s_start s"
      "\<forall>x \<in> set pre. \<not> mins \<le> s_end x - s_start x" by blast
    with False sj(2) show ?thesis
      by (intro exI [of _ "a # pre"] exI [of _ s] exI [of _ post]) simp
  qed
qed

lemma firstFit_None:
  "firstFit mins segs = None \<longleftrightarrow> (\<forall>s \<in> set segs. \<not> mins \<le> s_end s - s_start s)"
  by (induction segs) auto

lemma placeOnDay_None:
  "firstFit (u_mins u) (free st day) = None \<Longrightarrow> placeOnDay rnd u day st = st"
  by (simp add: placeOnDay_def)

lemma placeOnDay_Some:
  assumes "firstFit (u_mins u) (free st day) = Some (length pre)" "free st day = pre @ s # post"
  shows "placeOnDay rnd u day st =
     st\<lparr>planned := planned st @
            [\<lparr>p_id = uid ''plan'' (rnd (length (planned st))), p_day = day,
              p_startMin = s_start s, p_endMin = s_start s + u_mins u, p_type = ''plan'',
              p_taskId = Some (u_taskId u), p_label = Some (u_label u)\<rparr>],
        dailyCount := (dailyCount st)(day := dailyCount st day + 1),
        free := (free st)(day := filter (\<lambda>x. s_end x - s_start x \<ge> 15)
           (pre @ (if s_start s + u_mins u < s_end s
                   then [\<lparr>s_start = s_start s + u_mins u, s_end = s_end s\<rparr>] else []) @ post))\<rparr>"
  using assms by (simp add: placeOnDay_def Let_def)

text \<open>The two outcomes of placeOnDay, for case analysis.\<close>

lemma placeOnDay_cases:
  obtains (none) "firstFit (u_mins u) (free st day) = None" "placeOnDay rnd u day st = st"
  | (some) pre s post where "free st day = pre @ s # post"
      "firstFit (u_mins u) (free st day) = Some (length pre)"
      "u_mins u \<le> s_end s - s_start s" "\<forall>x \<in> set pre. \<not> u_mins u \<le> s_end x - s_start x"
      "placeOnDay rnd u day st =
         st\<lparr>planned := planned st @
            [\<lparr>p_id = uid ''plan'' (rnd (length (planned st))), p_day = day,
              p_startMin = s_start s, p_endMin = s_start s + u_mins u, p_type = ''plan'',
              p_taskId = Some (u_taskId u), p_label = Some (u_label u)\<rparr>],
        dailyCount := (dailyCount st)(day := dailyCount st day + 1),
        free := (free st)(day := filter (\<lambda>x. s_end x - s_start x \<ge> 15)
           (pre @ (if s_start s + u_mins u < s_end s
                   then [\<lparr>s_start = s_start s + u_mins u, s_end = s_end s\<rparr>] else []) @ post))\<rparr>"
proof (cases "firstFit (u_mins u) (free st day)")
  case None
  then show ?thesis using none placeOnDay_None by blast
next
  case (Some si)
  from firstFit_split [OF Some] obtain pre s post where
    sp: "free st day = pre @ s # post" "length pre = si" "u_mins u \<le> s_end s - s_start s"
      "\<forall>x \<in> set pre. \<not> u_mins u \<le> s_end x - s_start x" by blast
  from Some sp(2) have "firstFit (u_mins u) (free st day) = Some (length pre)" by simp
  from placeOnDay_Some [OF this sp(1)] this sp show ?thesis by (intro some [of pre s post]) auto
qed

lemma placeOnDay_placedInv:
  assumes inv: "placedInv G U cap st" and u: "u \<in> U" "0 \<le> u_mins u" and c: "dailyCount st day < cap"
  shows "placedInv G U cap (placeOnDay rnd u day st)"
proof (cases rule: placeOnDay_cases [of u st day rnd])
  case none
  with inv show ?thesis by simp
next
  case (some pre s post)
  let ?r = "\<lparr>s_start = s_start s + u_mins u, s_end = s_end s\<rparr>"
  let ?new = "filter (\<lambda>x. s_end x - s_start x \<ge> 15)
           (pre @ (if s_start s + u_mins u < s_end s then [?r] else []) @ post)"
  let ?blk = "\<lparr>p_id = uid ''plan'' (rnd (length (planned st))), p_day = day,
              p_startMin = s_start s, p_endMin = s_start s + u_mins u, p_type = ''plan'',
              p_taskId = Some (u_taskId u), p_label = Some (u_label u)\<rparr>"
  let ?st = "placeOnDay rnd u day st"
  have fr: "free ?st = (free st)(day := ?new)" and pl: "planned ?st = planned st @ [?blk]"
    and dc: "dailyCount ?st = (dailyCount st)(day := dailyCount st day + 1)"
    unfolding some(5) by simp_all
  from inv have i1: "\<forall>d. \<forall>s \<in> set (free st d). \<exists>g \<in> set (G d). s_start g \<le> s_start s \<and> s_end s \<le> s_end g"
    and i2: "\<forall>p \<in> set (planned st). \<exists>g \<in> set (G (p_day p)). \<exists>u \<in> U.
          s_start g \<le> p_startMin p \<and> p_endMin p \<le> s_end g
        \<and> p_endMin p - p_startMin p = u_mins u
        \<and> p_taskId p = Some (u_taskId u) \<and> p_label p = Some (u_label u)"
    and i3: "\<forall>d. dailyCount st d = int (length (filter (\<lambda>p. p_day p = d) (planned st)))"
    and i4: "\<forall>d. dailyCount st d \<le> max 0 cap"
    unfolding placedInv_def by blast+
  have "s \<in> set (free st day)" using some(1) by simp
  with i1 obtain g where g: "g \<in> set (G day)" "s_start g \<le> s_start s" "s_end s \<le> s_end g" by blast
  have n1: "\<forall>d. \<forall>t \<in> set (free ?st d). \<exists>g \<in> set (G d). s_start g \<le> s_start t \<and> s_end t \<le> s_end g"
  proof (intro allI ballI)
    fix d t assume t: "t \<in> set (free ?st d)"
    show "\<exists>g \<in> set (G d). s_start g \<le> s_start t \<and> s_end t \<le> s_end g"
    proof (cases "d = day")
      case False
      with t fr i1 show ?thesis by simp
    next
      case True
      with t fr have "t \<in> set pre \<union> set post \<or> t = ?r" by (auto split: if_splits)
      then show ?thesis
      proof
        assume "t \<in> set pre \<union> set post"
        then have "t \<in> set (free st day)" using some(1) by auto
        with i1 True show ?thesis by blast
      next
        assume "t = ?r"
        with g u(2) True show ?thesis by (intro bexI [of _ g]) auto
      qed
    qed
  qed
  have n2: "\<forall>p \<in> set (planned ?st). \<exists>g \<in> set (G (p_day p)). \<exists>u \<in> U.
          s_start g \<le> p_startMin p \<and> p_endMin p \<le> s_end g
        \<and> p_endMin p - p_startMin p = u_mins u
        \<and> p_taskId p = Some (u_taskId u) \<and> p_label p = Some (u_label u)"
  proof
    fix p assume "p \<in> set (planned ?st)"
    then consider "p \<in> set (planned st)" | "p = ?blk" unfolding pl by auto
    then show "\<exists>g \<in> set (G (p_day p)). \<exists>u \<in> U.
          s_start g \<le> p_startMin p \<and> p_endMin p \<le> s_end g
        \<and> p_endMin p - p_startMin p = u_mins u
        \<and> p_taskId p = Some (u_taskId u) \<and> p_label p = Some (u_label u)"
    proof cases
      case 1
      with i2 show ?thesis by blast
    next
      case 2
      with g u(1) some(3) show ?thesis
        by (intro bexI [of _ g] bexI [of _ u]) auto
    qed
  qed
  have n3: "\<forall>d. dailyCount ?st d = int (length (filter (\<lambda>p. p_day p = d) (planned ?st)))"
    unfolding dc pl using i3 by simp
  have n4: "\<forall>d. dailyCount ?st d \<le> max 0 cap"
    unfolding dc using i4 c by simp
  from n1 n2 n3 n4 show ?thesis unfolding placedInv_def by blast
qed

lemma sep_replace:
  assumes "sorted_wrt (\<lambda>x y. s_end x \<le> s_start y) (pre @ s # post)"
    and "s_start s \<le> s_start r" "s_end r \<le> s_end s"
  shows "sorted_wrt (\<lambda>x y. s_end x \<le> s_start y) (pre @ (if c then [r] else []) @ post)"
  using assms by (fastforce simp: sorted_wrt_append)

lemma start_replace:
  assumes "sorted (map s_start (pre @ s # post))"
    and "sorted_wrt (\<lambda>x y. s_end x \<le> s_start y) (pre @ s # post)"
    and "s_start s \<le> s_start r" "s_start r \<le> s_end s"
  shows "sorted (map s_start (pre @ (if c then [r] else []) @ post))"
  using assms by (fastforce simp: sorted_append sorted_wrt_append)

lemma placeOnDay_disjointInv:
  assumes inv: "disjointInv st" and u: "0 \<le> u_mins u"
  shows "disjointInv (placeOnDay rnd u day st)"
proof (cases rule: placeOnDay_cases [of u st day rnd])
  case none
  with inv show ?thesis by simp
next
  case (some pre s post)
  let ?r = "\<lparr>s_start = s_start s + u_mins u, s_end = s_end s\<rparr>"
  let ?c = "s_start s + u_mins u < s_end s"
  let ?segs = "pre @ (if ?c then [?r] else []) @ post"
  let ?new = "filter (\<lambda>x. s_end x - s_start x \<ge> 15) ?segs"
  let ?blk = "\<lparr>p_id = uid ''plan'' (rnd (length (planned st))), p_day = day,
              p_startMin = s_start s, p_endMin = s_start s + u_mins u, p_type = ''plan'',
              p_taskId = Some (u_taskId u), p_label = Some (u_label u)\<rparr>"
  let ?st = "placeOnDay rnd u day st"
  define new where "new = ?new"
  have fr: "free ?st = (free st)(day := new)" and pl: "planned ?st = planned st @ [?blk]"
    unfolding some(5) new_def by simp_all
  from inv have i1: "\<forall>d. sorted_wrt (\<lambda>x y. s_end x \<le> s_start y) (free st d)"
    and i2: "\<forall>d. sorted (map s_start (free st d))"
    and i3: "\<forall>p \<in> set (planned st). \<forall>s \<in> set (free st (p_day p)).
          p_endMin p \<le> s_start s \<or> s_end s \<le> p_startMin p"
    and i4: "sorted_wrt (\<lambda>p q. p_day p = p_day q \<longrightarrow> p_endMin p \<le> p_startMin q \<or> p_endMin q \<le> p_startMin p)
        (planned st)"
    unfolding disjointInv_def by blast+
  have sep: "sorted_wrt (\<lambda>x y. s_end x \<le> s_start y) (pre @ s # post)"
    and srt: "sorted (map s_start (pre @ s # post))"
    using i1 i2 some(1) by (metis)+
  have fit: "s_start s + u_mins u \<le> s_end s" using some(3) by simp
  have sep': "sorted_wrt (\<lambda>x y. s_end x \<le> s_start y) ?segs"
    by (rule sep_replace [OF sep]) (use u in auto)
  have srt': "sorted (map s_start ?segs)"
    by (rule start_replace [OF srt sep]) (use u fit in auto)
  have sn: "sorted_wrt (\<lambda>x y. s_end x \<le> s_start y) new"
    unfolding new_def using sep' by (rule sorted_wrt_filter)
  have tn: "sorted (map s_start new)"
    unfolding new_def using srt' by (rule sorted_filter)
  have n1: "\<forall>d. sorted_wrt (\<lambda>x y. s_end x \<le> s_start y) (free ?st d)"
    unfolding fr using i1 sn by simp
  have n2: "\<forall>d. sorted (map s_start (free ?st d))"
    unfolding fr using i2 tn by simp
  have mem: "t \<in> set pre \<and> s_end t \<le> s_start s \<or> t \<in> set post \<and> s_end s \<le> s_start t \<or> t = ?r"
    if "t \<in> set new" for t
    using that sep unfolding new_def by (auto simp: sorted_wrt_append split: if_splits)
  have sin: "s \<in> set (free st day)" using some(1) by simp
  have n3: "\<forall>p \<in> set (planned ?st). \<forall>t \<in> set (free ?st (p_day p)).
          p_endMin p \<le> s_start t \<or> s_end t \<le> p_startMin p"
  proof (intro ballI)
    fix p t assume p: "p \<in> set (planned ?st)" and t: "t \<in> set (free ?st (p_day p))"
    from p consider "p \<in> set (planned st)" | "p = ?blk" unfolding pl by auto
    then show "p_endMin p \<le> s_start t \<or> s_end t \<le> p_startMin p"
    proof cases
      case 1
      show ?thesis
      proof (cases "p_day p = day")
        case False
        with t fr i3 1 show ?thesis by simp
      next
        case True
        with t fr have "t \<in> set new" by simp
        from mem [OF this] show ?thesis
        proof (elim disjE conjE)
          assume "t \<in> set pre"
          then have "t \<in> set (free st (p_day p))" using some(1) True by simp
          with i3 1 show ?thesis by blast
        next
          assume "t \<in> set post"
          then have "t \<in> set (free st (p_day p))" using some(1) True by simp
          with i3 1 show ?thesis by blast
        next
          assume tr: "t = ?r"
          from i3 1 sin True have "p_endMin p \<le> s_start s \<or> s_end s \<le> p_startMin p" by simp
          with tr u show ?thesis by auto
        qed
      qed
    next
      case 2
      with t fr have "t \<in> set new" by simp
      from mem [OF this] 2 fit show ?thesis by auto
    qed
  qed
  have n4: "sorted_wrt (\<lambda>p q. p_day p = p_day q \<longrightarrow> p_endMin p \<le> p_startMin q \<or> p_endMin q \<le> p_startMin p)
        (planned ?st)"
  proof -
    have "p_day p = day \<longrightarrow> p_endMin p \<le> s_start s \<or> s_start s + u_mins u \<le> p_startMin p"
      if "p \<in> set (planned st)" for p
      using i3 that sin fit by fastforce
    with i4 show ?thesis unfolding pl by (simp add: sorted_wrt_append)
  qed
  from n1 n2 n3 n4 show ?thesis unfolding disjointInv_def by blast
qed

lemma placeUnit_placedInv:
  assumes "placedInv G U cap st" "u \<in> U" "0 \<le> u_mins u"
  shows "placedInv G U cap (placeUnit rnd cap u days st)"
  using assms(1)
proof (induction days arbitrary: st)
  case Nil then show ?case by simp
next
  case (Cons day days)
  show ?case
  proof (cases "cap \<le> dailyCount st day")
    case True
    with Cons show ?thesis by simp
  next
    case False
    then have "placedInv G U cap (placeOnDay rnd u day st)"
      using placeOnDay_placedInv [OF Cons.prems assms(2,3)] by simp
    with Cons.IH False show ?thesis by (simp add: Let_def)
  qed
qed

lemma placeUnit_disjointInv:
  assumes "disjointInv st" "0 \<le> u_mins u"
  shows "disjointInv (placeUnit rnd cap u days st)"
  using assms(1)
proof (induction days arbitrary: st)
  case Nil then show ?case by simp
next
  case (Cons day days)
  have "disjointInv (placeOnDay rnd u day st)"
    using placeOnDay_disjointInv [OF Cons.prems assms(2)] .
  with Cons show ?case by (simp add: Let_def)
qed

lemma placeAll_placedInv:
  assumes "placedInv G U cap st" "\<forall>u \<in> set units. u \<in> U \<and> 0 \<le> u_mins u"
  shows "placedInv G U cap (placeAll rnd cap units st)"
  using assms unfolding placeAll_def
  by (induction units arbitrary: st) (simp_all add: placeUnit_placedInv)

lemma placeAll_disjointInv:
  assumes "disjointInv st" "\<forall>u \<in> set units. 0 \<le> u_mins u"
  shows "disjointInv (placeAll rnd cap units st)"
  using assms unfolding placeAll_def
  by (induction units arbitrary: st) (simp_all add: placeUnit_disjointInv)

lemma initial_placedInv:
  "placedInv (buildFreeGrid prefs busy) U cap (initialState prefs busy)"
  by (auto simp: placedInv_def initialState_def)

lemma buildFreeGrid_sorted_start:
  "sorted (map s_start (buildFreeGrid prefs busy d))"
proof (cases "filter (\<lambda>b. b_day b = d) busy" rule: rev_cases)
  case Nil
  then show ?thesis by (simp add: buildFreeGrid_day)
next
  case (snoc bs b)
  then show ?thesis by (simp add: buildFreeGrid_day cutDay_def Let_def)
qed

lemma buildFreeGrid_sep:
  assumes "\<forall>b \<in> set busy. b_startMin b \<le> b_endMin b"
  shows "sorted_wrt (\<lambda>x y. s_end x \<le> s_start y) (buildFreeGrid prefs busy d)"
  unfolding buildFreeGrid_day by (rule fold_sep) (use assms in auto)

lemma initial_disjointInv:
  assumes "\<forall>b \<in> set busy. b_startMin b \<le> b_endMin b"
  shows "disjointInv (initialState prefs busy)"
  using buildFreeGrid_sep [OF assms] buildFreeGrid_sorted_start
  by (simp add: disjointInv_def initialState_def)

lemma buildFreeGrid_bounds:
  "g \<in> set (buildFreeGrid prefs busy d) \<Longrightarrow>
     startHour prefs * 60 \<le> s_start g \<and> s_end g \<le> endHour prefs * 60"
  unfolding buildFreeGrid_day by (drule fold_bounds) simp

lemma buildFreeGrid_avoid:
  "g \<in> set (buildFreeGrid prefs busy d) \<Longrightarrow> b \<in> set busy \<Longrightarrow> b_day b = d \<Longrightarrow>
     s_end g \<le> b_startMin b \<or> b_endMin b \<le> s_start g"
  unfolding buildFreeGrid_day
  by (rule fold_avoid [where bs = "filter (\<lambda>b. b_day b = d) busy"]) simp_all

lemma taskUnits_mins_ge:
  "taskUnits sc block t = Some us \<Longrightarrow> u \<in> set us \<Longrightarrow> 15 \<le> u_mins u"
  by (auto simp: taskUnits_def Let_def split: if_splits)

lemma expandTasks_mins_ge:
  "expandTasks sc block ts = Some us \<Longrightarrow> u \<in> set us \<Longrightarrow> 15 \<le> u_mins u"
proof (induction ts arbitrary: us)
  case Nil then show ?case by simp
next
  case (Cons t ts)
  then obtain a b where ab: "taskUnits sc block t = Some a" "expandTasks sc block ts = Some b" "us = a @ b"
    by (auto split: option.splits)
  with Cons.prems(2) consider "u \<in> set a" | "u \<in> set b" by auto
  then show ?case
  proof cases
    case 1 with ab(1) show ?thesis by (rule taskUnits_mins_ge)
  next
    case 2 with Cons.IH ab(2) show ?thesis by blast
  qed
qed

lemma sorted_wrt_perm:
  assumes "\<And>x y. R x y \<Longrightarrow> R y x" "sorted_wrt R xs" "mset ys = mset xs"
  shows "sorted_wrt R ys"
  using assms(2,3)
proof (induction ys arbitrary: xs)
  case Nil then show ?case by simp
next
  case (Cons y ys)
  from Cons.prems(2) have "y \<in> set xs" by (metis list.set_intros(1) mset_eq_setD)
  then obtain as bs where xs: "xs = as @ y # bs" by (meson split_list)
  with Cons.prems(2) have m: "mset ys = mset (as @ bs)" by simp
  from Cons.prems(1) xs have s: "sorted_wrt R (as @ bs)" "\<forall>z \<in> set as. R z y" "\<forall>z \<in> set bs. R y z"
    by (auto simp: sorted_wrt_append)
  from Cons.IH [OF s(1) m] have "sorted_wrt R ys" .
  moreover have "\<forall>z \<in> set ys. R y z"
  proof
    fix z assume "z \<in> set ys"
    with m have "z \<in> set as \<union> set bs" by (metis mset_eq_setD set_append)
    with s(2,3) assms(1) show "R y z" by blast
  qed
  ultimately show ?case by simp
qed

lemma length_filter_perm:
  "mset ys = mset xs \<Longrightarrow> length (filter P ys) = length (filter P xs)"
  by (metis mset_filter size_mset)

subsection \<open>The plan\<close>

lemma autoPlan_Some_iff:
  "autoPlan rnd sc prefs busy ts = Some out \<longleftrightarrow>
     (\<exists>us. expandTasks sc (workBlockMins prefs) ts = Some us
        \<and> out = sortPlanned (planned (placeAll rnd (maxBlocksPerDay prefs) (sortUnits us)
                  (initialState prefs busy))))"
  by (auto simp: autoPlan_def split: option.splits)

lemma set_sortUnits: "set (sortUnits us) = set us"
  by (simp add: sortUnits_def)

lemma mset_sortPlanned: "mset (sortPlanned ps) = mset ps"
  by (simp add: sortPlanned_def)

lemma set_sortPlanned: "set (sortPlanned ps) = set ps"
  by (simp add: sortPlanned_def)

lemma final_placedInv:
  assumes "expandTasks sc (workBlockMins prefs) ts = Some us"
  shows "placedInv (buildFreeGrid prefs busy) (set us) (maxBlocksPerDay prefs)
           (placeAll rnd (maxBlocksPerDay prefs) (sortUnits us) (initialState prefs busy))"
proof (rule placeAll_placedInv [OF initial_placedInv])
  show "\<forall>u \<in> set (sortUnits us). u \<in> set us \<and> 0 \<le> u_mins u"
    using expandTasks_mins_ge [OF assms] by (fastforce simp: set_sortUnits)
qed

lemma final_disjointInv:
  assumes "expandTasks sc (workBlockMins prefs) ts = Some us"
    and "\<forall>b \<in> set busy. b_startMin b \<le> b_endMin b"
  shows "disjointInv (placeAll rnd cap (sortUnits us) (initialState prefs busy))"
proof (rule placeAll_disjointInv [OF initial_disjointInv [OF assms(2)]])
  show "\<forall>u \<in> set (sortUnits us). 0 \<le> u_mins u"
    using expandTasks_mins_ge [OF assms(1)] by (fastforce simp: set_sortUnits)
qed

text \<open>What the invariant says of one block of the output.\<close>

lemma autoPlan_block:
  assumes "autoPlan rnd sc prefs busy ts = Some out" "p \<in> set out"
  shows "\<exists>us. expandTasks sc (workBlockMins prefs) ts = Some us
     \<and> (\<exists>g \<in> set (buildFreeGrid prefs busy (p_day p)). \<exists>u \<in> set us.
          s_start g \<le> p_startMin p \<and> p_endMin p \<le> s_end g
        \<and> p_endMin p - p_startMin p = u_mins u \<and> 15 \<le> u_mins u
        \<and> p_taskId p = Some (u_taskId u) \<and> p_label p = Some (u_label u))"
proof -
  from assms(1) obtain us where us: "expandTasks sc (workBlockMins prefs) ts = Some us"
    and out: "out = sortPlanned (planned (placeAll rnd (maxBlocksPerDay prefs) (sortUnits us)
                  (initialState prefs busy)))"
    unfolding autoPlan_Some_iff by blast
  from assms(2) have "p \<in> set (planned (placeAll rnd (maxBlocksPerDay prefs) (sortUnits us)
                  (initialState prefs busy)))"
    unfolding out set_sortPlanned .
  with final_placedInv [OF us, of busy rnd]
  obtain g u where "g \<in> set (buildFreeGrid prefs busy (p_day p))" "u \<in> set us"
      "s_start g \<le> p_startMin p" "p_endMin p \<le> s_end g" "p_endMin p - p_startMin p = u_mins u"
      "p_taskId p = Some (u_taskId u)" "p_label p = Some (u_label u)"
    unfolding placedInv_def by blast
  with us expandTasks_mins_ge [OF us, of u] show ?thesis by blast
qed

text \<open>
  Claim C10. For all preferences, busy blocks and tasks (also without \<open>startHour < endHour\<close>),
  the scheduler returns a plan whenever the block size is not 0, and every planned block of
  the plan lies within the daily window, \<open>startHour * 60 \<le> startMin < endMin \<le> endHour * 60\<close>,
  and lasts exactly as long as a work unit of the expanded tasks with its task id and label.
\<close>

theorem autoPlan_within_window:
  "(workBlockMins prefs \<noteq> 0 \<longrightarrow> (\<exists>out. autoPlan rnd sc prefs busy ts = Some out))
   \<and> (\<forall>out p. autoPlan rnd sc prefs busy ts = Some out \<and> p \<in> set out \<longrightarrow>
         startHour prefs * 60 \<le> p_startMin p \<and> p_startMin p < p_endMin p
       \<and> p_endMin p \<le> endHour prefs * 60
       \<and> (\<exists>us. expandTasks sc (workBlockMins prefs) ts = Some us
            \<and> (\<exists>u \<in> set us. p_taskId p = Some (u_taskId u) \<and> p_label p = Some (u_label u)
                  \<and> p_endMin p - p_startMin p = u_mins u)))"
proof (intro conjI impI allI)
  assume "workBlockMins prefs \<noteq> 0"
  then show "\<exists>out. autoPlan rnd sc prefs busy ts = Some out" by (rule autoPlan_Some)
next
  fix out p assume a: "autoPlan rnd sc prefs busy ts = Some out \<and> p \<in> set out"
  then obtain us g u where us: "expandTasks sc (workBlockMins prefs) ts = Some us"
    and g: "g \<in> set (buildFreeGrid prefs busy (p_day p))" and u: "u \<in> set us"
    and b: "s_start g \<le> p_startMin p" "p_endMin p \<le> s_end g"
      "p_endMin p - p_startMin p = u_mins u" "15 \<le> u_mins u"
      "p_taskId p = Some (u_taskId u)" "p_label p = Some (u_label u)"
    using autoPlan_block [of rnd sc prefs busy ts out p] by blast
  from buildFreeGrid_bounds [OF g] b(1,2)
  show "startHour prefs * 60 \<le> p_startMin p" "p_endMin p \<le> endHour prefs * 60" by simp_all
  from b(3,4) show "p_startMin p < p_endMin p" by simp
  from us u b show "\<exists>us. expandTasks sc (workBlockMins prefs) ts = Some us
            \<and> (\<exists>u \<in> set us. p_taskId p = Some (u_taskId u) \<and> p_label p = Some (u_label u)
                  \<and> p_endMin p - p_startMin p = u_mins u)" by blast
qed

text \<open>
  For busy blocks none of which ends before it starts, all preferences and all tasks: the
  scheduler returns a plan whenever the block size is not 0, and in the plan no two planned
  blocks of a day overlap, no planned block overlaps a busy block of its day, no day has more
  than \<open>maxBlocksPerDay\<close> planned blocks, and every planned block lies in an interval of the
  free grid that is at least as long as the unit the block was made for.
\<close>

lemma autoPlan_no_overlap:
  assumes wf: "\<forall>b \<in> set busy. b_startMin b \<le> b_endMin b"
  shows "(workBlockMins prefs \<noteq> 0 \<longrightarrow> (\<exists>out. autoPlan rnd sc prefs busy ts = Some out))
   \<and> (\<forall>out. autoPlan rnd sc prefs busy ts = Some out \<longrightarrow>
        (\<forall>i j. i < j \<and> j < length out \<and> p_day (out ! i) = p_day (out ! j) \<longrightarrow>
             plannedSet (out ! i) \<inter> plannedSet (out ! j) = {})
      \<and> (\<forall>p \<in> set out. \<forall>b \<in> set busy. b_day b = p_day p \<longrightarrow> plannedSet p \<inter> busySet b = {})
      \<and> (\<forall>d. int (length (filter (\<lambda>p. p_day p = d) out)) \<le> max 0 (maxBlocksPerDay prefs))
      \<and> (\<forall>p \<in> set out. \<exists>g \<in> set (buildFreeGrid prefs busy (p_day p)).
            plannedSet p \<subseteq> slotSet g
          \<and> (\<exists>us. expandTasks sc (workBlockMins prefs) ts = Some us
                \<and> (\<exists>u \<in> set us. p_taskId p = Some (u_taskId u) \<and> p_label p = Some (u_label u)
                      \<and> p_endMin p - p_startMin p = u_mins u
                      \<and> u_mins u \<le> s_end g - s_start g))))
   \<and> (\<forall>st u day. placeOnDay rnd u day st = st
        \<or> (\<exists>s \<in> set (free st day). u_mins u \<le> s_end s - s_start s
              \<and> planned (placeOnDay rnd u day st) = planned st @
                  [\<lparr>p_id = uid ''plan'' (rnd (length (planned st))), p_day = day,
                    p_startMin = s_start s, p_endMin = s_start s + u_mins u, p_type = ''plan'',
                    p_taskId = Some (u_taskId u), p_label = Some (u_label u)\<rparr>]))"
proof -
  have returns: "\<exists>out. autoPlan rnd sc prefs busy ts = Some out" if "workBlockMins prefs \<noteq> 0"
    using that by (rule autoPlan_Some)
  have step: "placeOnDay rnd u day st = st
        \<or> (\<exists>s \<in> set (free st day). u_mins u \<le> s_end s - s_start s
              \<and> planned (placeOnDay rnd u day st) = planned st @
                  [\<lparr>p_id = uid ''plan'' (rnd (length (planned st))), p_day = day,
                    p_startMin = s_start s, p_endMin = s_start s + u_mins u, p_type = ''plan'',
                    p_taskId = Some (u_taskId u), p_label = Some (u_label u)\<rparr>])" for st u day
  proof (cases rule: placeOnDay_cases [of u st day rnd])
    case none
    then show ?thesis by simp
  next
    case (some pre s post)
    have "s \<in> set (free st day)" using some(1) by simp
    moreover have "planned (placeOnDay rnd u day st) = planned st @
                  [\<lparr>p_id = uid ''plan'' (rnd (length (planned st))), p_day = day,
                    p_startMin = s_start s, p_endMin = s_start s + u_mins u, p_type = ''plan'',
                    p_taskId = Some (u_taskId u), p_label = Some (u_label u)\<rparr>]"
      unfolding some(5) by simp
    ultimately show ?thesis using some(3) by blast
  qed
  have plan: "(\<forall>i j. i < j \<and> j < length out \<and> p_day (out ! i) = p_day (out ! j) \<longrightarrow>
             plannedSet (out ! i) \<inter> plannedSet (out ! j) = {})
      \<and> (\<forall>p \<in> set out. \<forall>b \<in> set busy. b_day b = p_day p \<longrightarrow> plannedSet p \<inter> busySet b = {})
      \<and> (\<forall>d. int (length (filter (\<lambda>p. p_day p = d) out)) \<le> max 0 (maxBlocksPerDay prefs))
      \<and> (\<forall>p \<in> set out. \<exists>g \<in> set (buildFreeGrid prefs busy (p_day p)).
            plannedSet p \<subseteq> slotSet g
          \<and> (\<exists>us. expandTasks sc (workBlockMins prefs) ts = Some us
                \<and> (\<exists>u \<in> set us. p_taskId p = Some (u_taskId u) \<and> p_label p = Some (u_label u)
                      \<and> p_endMin p - p_startMin p = u_mins u
                      \<and> u_mins u \<le> s_end g - s_start g)))"
    if a: "autoPlan rnd sc prefs busy ts = Some out" for out
  proof (intro conjI)
    from a obtain us where us: "expandTasks sc (workBlockMins prefs) ts = Some us"
      and out: "out = sortPlanned (planned (placeAll rnd (maxBlocksPerDay prefs) (sortUnits us)
                  (initialState prefs busy)))"
      unfolding autoPlan_Some_iff by blast
    let ?st = "placeAll rnd (maxBlocksPerDay prefs) (sortUnits us) (initialState prefs busy)"
    let ?R = "\<lambda>p q. p_day p = p_day q \<longrightarrow> p_endMin p \<le> p_startMin q \<or> p_endMin q \<le> p_startMin p"
    have m: "mset out = mset (planned ?st)" unfolding out by (rule mset_sortPlanned)
    from final_disjointInv [OF us wf] have "sorted_wrt ?R (planned ?st)"
      unfolding disjointInv_def by blast
    then have pw: "sorted_wrt ?R out"
      by (rule sorted_wrt_perm [rotated, OF _ m]) auto
    show "\<forall>i j. i < j \<and> j < length out \<and> p_day (out ! i) = p_day (out ! j) \<longrightarrow>
             plannedSet (out ! i) \<inter> plannedSet (out ! j) = {}"
    proof (intro allI impI)
      fix i j assume ij: "i < j \<and> j < length out \<and> p_day (out ! i) = p_day (out ! j)"
      with pw have "p_endMin (out ! i) \<le> p_startMin (out ! j) \<or> p_endMin (out ! j) \<le> p_startMin (out ! i)"
        by (simp add: sorted_wrt_iff_nth_less)
      then show "plannedSet (out ! i) \<inter> plannedSet (out ! j) = {}"
        by (auto simp: plannedSet_def)
    qed
    show "\<forall>p \<in> set out. \<forall>b \<in> set busy. b_day b = p_day p \<longrightarrow> plannedSet p \<inter> busySet b = {}"
    proof (intro ballI impI)
      fix p b assume p: "p \<in> set out" and b: "b \<in> set busy" "b_day b = p_day p"
      from autoPlan_block [OF a p] obtain g where g: "g \<in> set (buildFreeGrid prefs busy (p_day p))"
        "s_start g \<le> p_startMin p" "p_endMin p \<le> s_end g" by blast
      from buildFreeGrid_avoid [OF g(1) b] g(2,3)
      show "plannedSet p \<inter> busySet b = {}" by (auto simp: plannedSet_def busySet_def)
    qed
    show "\<forall>d. int (length (filter (\<lambda>p. p_day p = d) out)) \<le> max 0 (maxBlocksPerDay prefs)"
    proof
      fix d
      from final_placedInv [OF us, of busy rnd]
      have "dailyCount ?st d = int (length (filter (\<lambda>p. p_day p = d) (planned ?st)))"
        "dailyCount ?st d \<le> max 0 (maxBlocksPerDay prefs)"
        unfolding placedInv_def by blast+
      then show "int (length (filter (\<lambda>p. p_day p = d) out)) \<le> max 0 (maxBlocksPerDay prefs)"
        using length_filter_perm [OF m, of "\<lambda>p. p_day p = d"] by simp
    qed
    show "\<forall>p \<in> set out. \<exists>g \<in> set (buildFreeGrid prefs busy (p_day p)).
            plannedSet p \<subseteq> slotSet g
          \<and> (\<exists>us. expandTasks sc (workBlockMins prefs) ts = Some us
                \<and> (\<exists>u \<in> set us. p_taskId p = Some (u_taskId u) \<and> p_label p = Some (u_label u)
                      \<and> p_endMin p - p_startMin p = u_mins u
                      \<and> u_mins u \<le> s_end g - s_start g))"
    proof
      fix p assume p: "p \<in> set out"
      from autoPlan_block [OF a p] obtain us' g u where
        x: "expandTasks sc (workBlockMins prefs) ts = Some us'"
        "g \<in> set (buildFreeGrid prefs busy (p_day p))" "u \<in> set us'"
        "s_start g \<le> p_startMin p" "p_endMin p \<le> s_end g" "p_endMin p - p_startMin p = u_mins u"
        "p_taskId p = Some (u_taskId u)" "p_label p = Some (u_label u)" by blast
      have "plannedSet p \<subseteq> slotSet g" using x(4,5) by (auto simp: plannedSet_def slotSet_def)
      moreover have "u_mins u \<le> s_end g - s_start g" using x(4,5,6) by simp
      ultimately show "\<exists>g \<in> set (buildFreeGrid prefs busy (p_day p)).
            plannedSet p \<subseteq> slotSet g
          \<and> (\<exists>us. expandTasks sc (workBlockMins prefs) ts = Some us
                \<and> (\<exists>u \<in> set us. p_taskId p = Some (u_taskId u) \<and> p_label p = Some (u_label u)
                      \<and> p_endMin p - p_startMin p = u_mins u
                      \<and> u_mins u \<le> s_end g - s_start g))"
        using x by blast
    qed
  qed
  from returns step plan show ?thesis by blast
qed

lemma example_units:
  "expandTasks exampleScore (workBlockMins examplePrefs) [exampleTask] =
     Some [\<lparr>u_taskId = ''t1'', u_label = ''Exam (Part 1/3)'', u_mins = 50, u_score = 1.35\<rparr>,
           \<lparr>u_taskId = ''t1'', u_label = ''Exam (Part 2/3)'', u_mins = 50, u_score = 1.35\<rparr>,
           \<lparr>u_taskId = ''t1'', u_label = ''Exam (Part 3/3)'', u_mins = 30, u_score = 1.35\<rparr>]"
  by (simp add: taskUnits_def Let_def examplePrefs_def exampleTask_def exampleScore_def
      upt_conv_Cons decimal.simps)

lemma example_autoPlan:
  "autoPlan exampleRnd exampleScore examplePrefs [busyClass] [exampleTask] = Some examplePlan"
  unfolding autoPlan_def example_units
  by (simp add: sortUnits_def sortPlanned_def placeAll_def initialState_def
      buildFreeGrid_def subtractBusy_def cutDay_def cutSlot_def placeOnDay_def DAYS_def uid_def Let_def
      examplePrefs_def busyClass_def exampleRnd_def examplePlan_def decimal.simps)


theorem autoPlan_within_window_witness:
  "workBlockMins examplePrefs \<noteq> 0
   \<and> autoPlan exampleRnd exampleScore examplePrefs [busyClass] [exampleTask] = Some examplePlan
   \<and> examplePlan ! 2 \<in> set examplePlan
   \<and> (startHour examplePrefs * 60 \<le> p_startMin (examplePlan ! 2)
       \<and> p_startMin (examplePlan ! 2) < p_endMin (examplePlan ! 2)
       \<and> p_endMin (examplePlan ! 2) \<le> endHour examplePrefs * 60
       \<and> (\<exists>us. expandTasks exampleScore (workBlockMins examplePrefs) [exampleTask] = Some us
            \<and> (\<exists>u \<in> set us. p_taskId (examplePlan ! 2) = Some (u_taskId u)
                  \<and> p_label (examplePlan ! 2) = Some (u_label u)
                  \<and> p_endMin (examplePlan ! 2) - p_startMin (examplePlan ! 2) = u_mins u)))
   \<and> p_endMin (examplePlan ! 2) - p_startMin (examplePlan ! 2) = 30"
proof -
  have w: "workBlockMins examplePrefs \<noteq> 0" by (simp add: examplePrefs_def)
  have m: "examplePlan ! 2 \<in> set examplePlan" by (simp add: examplePlan_def)
  have d: "p_endMin (examplePlan ! 2) - p_startMin (examplePlan ! 2) = 30" by (simp add: examplePlan_def)
  note t = autoPlan_within_window [of examplePrefs exampleRnd exampleScore "[busyClass]" "[exampleTask]"]
  note c = t [THEN conjunct2, rule_format, OF conjI [OF example_autoPlan m]]
  show ?thesis
    by (intro conjI w example_autoPlan m d c)
qed

lemma autoPlan_no_overlap_witness:
  "b_startMin busyClass \<le> b_endMin busyClass
   \<and> workBlockMins examplePrefs \<noteq> 0
   \<and> autoPlan exampleRnd exampleScore examplePrefs [busyClass] [exampleTask] = Some examplePlan
   \<and> p_day (examplePlan ! 0) = p_day (examplePlan ! 1)
   \<and> plannedSet (examplePlan ! 0) \<inter> plannedSet (examplePlan ! 1) = {}
   \<and> b_day busyClass = p_day (examplePlan ! 2)
   \<and> plannedSet (examplePlan ! 2) \<inter> busySet busyClass = {}
   \<and> int (length (filter (\<lambda>p. p_day p = Mon) examplePlan)) \<le> max 0 (maxBlocksPerDay examplePrefs)
   \<and> length (filter (\<lambda>p. p_day p = Mon) examplePlan) = 3
   \<and> (\<exists>g \<in> set (buildFreeGrid examplePrefs [busyClass] (p_day (examplePlan ! 2))).
         plannedSet (examplePlan ! 2) \<subseteq> slotSet g)"
proof -
  have wf: "\<forall>b \<in> set [busyClass]. b_startMin b \<le> b_endMin b" by (simp add: busyClass_def)
  have wf1: "b_startMin busyClass \<le> b_endMin busyClass" by (simp add: busyClass_def)
  have w: "workBlockMins examplePrefs \<noteq> 0" by (simp add: examplePrefs_def)
  have days: "p_day (examplePlan ! 0) = p_day (examplePlan ! 1)" "b_day busyClass = p_day (examplePlan ! 2)"
    by (simp_all add: examplePlan_def busyClass_def)
  have ij: "0 < (1::nat) \<and> 1 < length examplePlan \<and> p_day (examplePlan ! 0) = p_day (examplePlan ! 1)"
    by (simp add: examplePlan_def)
  have m: "examplePlan ! 2 \<in> set examplePlan" by (simp add: examplePlan_def)
  have bm: "busyClass \<in> set [busyClass]" by simp
  have n: "length (filter (\<lambda>p. p_day p = Mon) examplePlan) = 3" by (simp add: examplePlan_def)
  note t = autoPlan_no_overlap [OF wf, of examplePrefs exampleRnd exampleScore "[exampleTask]"]
  note t2 = t [THEN conjunct2, THEN conjunct1, rule_format, OF example_autoPlan]
  note a = t2 [THEN conjunct1, rule_format, OF ij]
  note b = t2 [THEN conjunct2, THEN conjunct1, rule_format, OF m bm days(2)]
  note c = t2 [THEN conjunct2, THEN conjunct2, THEN conjunct1, rule_format, of Mon]
  note d = t2 [THEN conjunct2, THEN conjunct2, THEN conjunct2, rule_format, OF m]
  from d obtain g where g: "g \<in> set (buildFreeGrid examplePrefs [busyClass] (p_day (examplePlan ! 2)))"
    "plannedSet (examplePlan ! 2) \<subseteq> slotSet g" by (elim bexE conjE)
  then have e: "\<exists>g \<in> set (buildFreeGrid examplePrefs [busyClass] (p_day (examplePlan ! 2))).
         plannedSet (examplePlan ! 2) \<subseteq> slotSet g" by (rule bexI [rotated])
  show ?thesis
    by (intro conjI wf1 w example_autoPlan days a b c n e)
qed

subsection \<open>Determinism\<close>

lemma eraseId_fields [simp]:
  "p_day (eraseId p) = p_day p" "p_startMin (eraseId p) = p_startMin p"
  "p_endMin (eraseId p) = p_endMin p" "p_taskId (eraseId p) = p_taskId p"
  "p_label (eraseId p) = p_label p" "p_type (eraseId p) = p_type p"
  by (simp_all add: eraseId_def)

lemma list_ex_eraseId:
  "list_ex (\<lambda>p. p_taskId p = a \<and> p_label p = b) (map eraseId ps)
     = list_ex (\<lambda>p. p_taskId p = a \<and> p_label p = b) ps"
  by (simp add: list_ex_iff)

lemma placeOnDay_erase:
  assumes "free st = free st'" "dailyCount st = dailyCount st'"
    "map eraseId (planned st) = map eraseId (planned st')"
  shows "free (placeOnDay rnd u day st) = free (placeOnDay rnd' u day st')
    \<and> dailyCount (placeOnDay rnd u day st) = dailyCount (placeOnDay rnd' u day st')
    \<and> map eraseId (planned (placeOnDay rnd u day st)) = map eraseId (planned (placeOnDay rnd' u day st'))"
  using assms by (simp add: placeOnDay_def Let_def eraseId_def split: option.splits)


lemma placeUnit_erase:
  assumes "free st = free st'" "dailyCount st = dailyCount st'"
    "map eraseId (planned st) = map eraseId (planned st')"
  shows "free (placeUnit rnd cap u days st) = free (placeUnit rnd' cap u days st')
    \<and> dailyCount (placeUnit rnd cap u days st) = dailyCount (placeUnit rnd' cap u days st')
    \<and> map eraseId (planned (placeUnit rnd cap u days st)) = map eraseId (planned (placeUnit rnd' cap u days st'))"
  using assms
proof (induction days arbitrary: st st')
  case Nil then show ?case by simp
next
  case (Cons day days)
  let ?P = "\<lambda>p. p_taskId p = Some (u_taskId u) \<and> p_label p = Some (u_label u)"
  let ?A = "placeOnDay rnd u day st" and ?B = "placeOnDay rnd' u day st'"
  note e = placeOnDay_erase [OF Cons.prems, of rnd u day rnd']
  from e have e1: "free ?A = free ?B" and e2: "dailyCount ?A = dailyCount ?B"
    and e3: "map eraseId (planned ?A) = map eraseId (planned ?B)" by blast+
  have "list_ex ?P (map eraseId (planned ?A)) = list_ex ?P (map eraseId (planned ?B))"
    by (simp only: e3)
  then have l: "list_ex ?P (planned ?A) = list_ex ?P (planned ?B)"
    unfolding list_ex_eraseId .
  have c: "(cap \<le> dailyCount st day) = (cap \<le> dailyCount st' day)"
    using Cons.prems(2) by simp
  have u1: "placeUnit rnd cap u (day # days) st =
      (if cap \<le> dailyCount st day then placeUnit rnd cap u days st
       else if list_ex ?P (planned ?A) then ?A else placeUnit rnd cap u days ?A)"
    by (simp add: Let_def)
  have u2: "placeUnit rnd' cap u (day # days) st' =
      (if cap \<le> dailyCount st day then placeUnit rnd' cap u days st'
       else if list_ex ?P (planned ?A) then ?B else placeUnit rnd' cap u days ?B)"
    unfolding c l by (simp add: Let_def)
  show ?case
  proof (cases "cap \<le> dailyCount st day")
    case True
    then show ?thesis unfolding u1 u2 using Cons.IH [OF Cons.prems] by (simp only: if_True)
  next
    case False
    show ?thesis
    proof (cases "list_ex ?P (planned ?A)")
      case True
      with False show ?thesis unfolding u1 u2 using e by (simp only: if_True if_False)
    next
      case n: False
      with False show ?thesis unfolding u1 u2 using Cons.IH [OF e1 e2 e3]
        by (simp only: if_False)
    qed
  qed
qed

lemma placeAll_erase:
  assumes "free st = free st'" "dailyCount st = dailyCount st'"
    "map eraseId (planned st) = map eraseId (planned st')"
  shows "map eraseId (planned (placeAll rnd cap units st)) = map eraseId (planned (placeAll rnd' cap units st'))"
  using assms
proof (induction units arbitrary: st st')
  case Nil then show ?case by (simp add: placeAll_def)
next
  case (Cons u units)
  from placeUnit_erase [OF Cons.prems, of rnd cap u DAYS rnd']
  have e: "free (placeUnit rnd cap u DAYS st) = free (placeUnit rnd' cap u DAYS st')"
    "dailyCount (placeUnit rnd cap u DAYS st) = dailyCount (placeUnit rnd' cap u DAYS st')"
    "map eraseId (planned (placeUnit rnd cap u DAYS st)) = map eraseId (planned (placeUnit rnd' cap u DAYS st'))"
    by blast+
  have s: "placeAll r cap (u # units) x = placeAll r cap units (placeUnit r cap u DAYS x)" for r x
    by (simp add: placeAll_def)
  show ?case unfolding s by (rule Cons.IH [OF e])
qed

lemma insort_key_map_same:
  assumes "\<And>x. k (f x) = k x"
  shows "map f (insort_key k x xs) = insort_key k (f x) (map f xs)"
  by (induction xs) (simp_all add: assms)

lemma sort_key_map_same:
  assumes "\<And>x. k (f x) = k x"
  shows "map f (sort_key k xs) = sort_key k (map f xs)"
  using assms by (induction xs) (simp_all add: insort_key_map_same)

lemma sortPlanned_erase:
  "map eraseId (sortPlanned ps) = sortPlanned (map eraseId ps)"
  unfolding sortPlanned_def by (rule sort_key_map_same) simp

text \<open>
  Claim C9, amended. For fixed preferences, busy blocks, tasks and scores (a fixed "today"), two
  runs of the scheduler, whatever \<open>uid\<close> draws in each, either both do not end or both return
  plans that agree in length, order and every field but the identity: day, start, end, type,
  task and label.
\<close>

theorem autoPlan_deterministic_but_ids:
  "map_option (map eraseId) (autoPlan rnd sc prefs busy ts)
     = map_option (map eraseId) (autoPlan rnd' sc prefs busy ts)"
proof (cases "expandTasks sc (workBlockMins prefs) ts")
  case None
  then show ?thesis by (simp add: autoPlan_def)
next
  case (Some us)
  have "map eraseId (planned (placeAll rnd (maxBlocksPerDay prefs) (sortUnits us) (initialState prefs busy)))
      = map eraseId (planned (placeAll rnd' (maxBlocksPerDay prefs) (sortUnits us) (initialState prefs busy)))"
    by (rule placeAll_erase) simp_all
  with Some show ?thesis by (simp add: autoPlan_def sortPlanned_erase)
qed

lemma other_autoPlan:
  "map_option (map p_id) (autoPlan otherRnd exampleScore examplePrefs [busyClass] [exampleTask])
     = Some [''plan_c41d0_19a1'', ''plan_c41d1_19a1'', ''plan_c41d2_19a1'']"
  unfolding autoPlan_def example_units
  by (simp add: sortUnits_def sortPlanned_def placeAll_def initialState_def
      buildFreeGrid_def subtractBusy_def cutDay_def cutSlot_def placeOnDay_def DAYS_def uid_def Let_def
      examplePrefs_def busyClass_def otherRnd_def decimal.simps)

text \<open>
  Claim C9, as stated, fails on the identities: \<open>uid\<close> joins what \<open>Math.random()\<close> and
  \<open>Date.now()\<close> return, so two runs on the same input that draw different values give plans
  with different identities.
\<close>

theorem autoPlan_ids_differ:
  "map_option (map p_id) (autoPlan exampleRnd exampleScore examplePrefs [busyClass] [exampleTask])
     = Some [''plan_8f3a0_19a0'', ''plan_8f3a1_19a0'', ''plan_8f3a2_19a0'']
   \<and> map_option (map p_id) (autoPlan otherRnd exampleScore examplePrefs [busyClass] [exampleTask])
       = Some [''plan_c41d0_19a1'', ''plan_c41d1_19a1'', ''plan_c41d2_19a1'']
   \<and> autoPlan exampleRnd exampleScore examplePrefs [busyClass] [exampleTask]
       \<noteq> autoPlan otherRnd exampleScore examplePrefs [busyClass] [exampleTask]"
proof -
  have a: "map_option (map p_id) (autoPlan exampleRnd exampleScore examplePrefs [busyClass] [exampleTask])
     = Some [''plan_8f3a0_19a0'', ''plan_8f3a1_19a0'', ''plan_8f3a2_19a0'']"
    unfolding example_autoPlan by (simp add: examplePlan_def)
  have ne: "map_option (map p_id) (autoPlan exampleRnd exampleScore examplePrefs [busyClass] [exampleTask])
      \<noteq> map_option (map p_id) (autoPlan otherRnd exampleScore examplePrefs [busyClass] [exampleTask])"
    unfolding a other_autoPlan by simp
  have "autoPlan exampleRnd exampleScore examplePrefs [busyClass] [exampleTask]
       \<noteq> autoPlan otherRnd exampleScore examplePrefs [busyClass] [exampleTask]"
  proof
    assume "autoPlan exampleRnd exampleScore examplePrefs [busyClass] [exampleTask]
       = autoPlan otherRnd exampleScore examplePrefs [busyClass] [exampleTask]"
    then have "map_option (map p_id) (autoPlan exampleRnd exampleScore examplePrefs [busyClass] [exampleTask])
      = map_option (map p_id) (autoPlan otherRnd exampleScore examplePrefs [busyClass] [exampleTask])"
      by (rule arg_cong)
    with ne show False ..
  qed
  with a other_autoPlan show ?thesis by (intro conjI)
qed

subsection \<open>First fit\<close>

lemma decimal_nonempty: "decimal n \<noteq> []"
  by (subst decimal.simps) simp

lemma digit_inj:
  assumes "i < 10" "j < 10" "''0123456789'' ! i = ''0123456789'' ! j"
  shows "i = j"
proof -
  have "distinct ''0123456789''" by simp
  moreover have "i < length ''0123456789''" "j < length ''0123456789''" using assms by simp_all
  ultimately show ?thesis using assms(3) by (simp only: nth_eq_iff_index_eq)
qed

lemma decimal_inj: "decimal m = decimal n \<Longrightarrow> m = n"
proof (induction m arbitrary: n rule: decimal.induct)
  case (1 m)
  show ?case
  proof (cases "m < 10")
    case True
    then have dm: "decimal m = [''0123456789'' ! m]" by (subst decimal.simps) simp
    show ?thesis
    proof (cases "n < 10")
      case n: True
      then have "decimal n = [''0123456789'' ! n]" by (subst decimal.simps) simp
      with dm "1.prems" have "''0123456789'' ! m = ''0123456789'' ! n" by simp
      with True n show ?thesis by (rule digit_inj)
    next
      case False
      then have "decimal n = decimal (n div 10) @ [''0123456789'' ! (n mod 10)]"
        by (subst decimal.simps) simp
      with dm "1.prems" decimal_nonempty [of "n div 10"] show ?thesis
        by (cases "decimal (n div 10)") simp_all
    qed
  next
    case False
    then have dm: "decimal m = decimal (m div 10) @ [''0123456789'' ! (m mod 10)]"
      by (subst decimal.simps) simp
    show ?thesis
    proof (cases "n < 10")
      case True
      then have "decimal n = [''0123456789'' ! n]" by (subst decimal.simps) simp
      with dm "1.prems" decimal_nonempty [of "m div 10"] show ?thesis
        by (cases "decimal (m div 10)") simp_all
    next
      case n: False
      then have "decimal n = decimal (n div 10) @ [''0123456789'' ! (n mod 10)]"
        by (subst decimal.simps) simp
      with dm "1.prems" have e: "decimal (m div 10) = decimal (n div 10)"
        "''0123456789'' ! (m mod 10) = ''0123456789'' ! (n mod 10)" by simp_all
      from "1.IH" [OF False e(1)] have d: "m div 10 = n div 10" .
      have "m mod 10 = n mod 10" by (rule digit_inj [OF _ _ e(2)]) simp_all
      with d show ?thesis by (metis div_mult_mod_eq)
    qed
  qed
qed

lemma taskUnits_taskId:
  "taskUnits sc block t = Some us \<Longrightarrow> u \<in> set us \<Longrightarrow> u_taskId u = t_id t"
  by (auto simp: taskUnits_def Let_def split: if_splits)

lemma taskUnits_labels_distinct:
  assumes "taskUnits sc block t = Some us"
  shows "distinct (map u_label us)"
proof (cases "t_done t \<or> max 0 (t_estimateMins t) \<le> 0")
  case True
  with assms show ?thesis by (auto simp: taskUnits_def Let_def split: if_splits)
next
  case False
  define parts where "parts = max 1 \<lceil>real_of_int (max 0 (t_estimateMins t)) / real_of_int block\<rceil>"
  define lab where "lab = (\<lambda>i. if parts = 1 then t_title t
         else t_title t @ '' (Part '' @ decimal (i + 1) @ ''/'' @ decimal (nat parts) @ '')'')"
  from assms False have us: "map u_label us = map lab [0 ..< nat parts]"
    by (auto simp: taskUnits_def Let_def parts_def lab_def comp_def split: if_splits)
  show ?thesis
  proof (cases "parts = 1")
    case True
    then show ?thesis unfolding us by simp
  next
    case False
    have "inj lab"
    proof (rule injI)
      fix i j assume "lab i = lab j"
      with False have "decimal (i + 1) = decimal (j + 1)" by (simp add: lab_def)
      from decimal_inj [OF this] show "i = j" by simp
    qed
    then have "inj_on lab (set [0 ..< nat parts])" by (rule inj_on_subset) simp
    then show ?thesis unfolding us by (simp add: distinct_map)
  qed
qed

lemma taskUnits_keys_distinct:
  assumes "taskUnits sc block t = Some us"
  shows "distinct (map (\<lambda>u. (u_taskId u, u_label u)) us)"
proof -
  have "distinct (map snd (map (\<lambda>u. (u_taskId u, u_label u)) us))"
    using taskUnits_labels_distinct [OF assms] by (simp add: comp_def)
  then show ?thesis by (auto simp: distinct_map intro: inj_on_imageI2)
qed

lemma expandTasks_taskId:
  "expandTasks sc block ts = Some us \<Longrightarrow> u \<in> set us \<Longrightarrow> u_taskId u \<in> t_id ` set ts"
proof (induction ts arbitrary: us)
  case Nil then show ?case by simp
next
  case (Cons t ts)
  then obtain a b where ab: "taskUnits sc block t = Some a" "expandTasks sc block ts = Some b" "us = a @ b"
    by (auto split: option.splits)
  with Cons.prems(2) consider "u \<in> set a" | "u \<in> set b" by auto
  then show ?case
  proof cases
    case 1 with taskUnits_taskId [OF ab(1)] show ?thesis by simp
  next
    case 2 with Cons.IH [OF ab(2)] show ?thesis by simp
  qed
qed

lemma expandTasks_keys_distinct:
  assumes "distinct (map t_id ts)" "expandTasks sc block ts = Some us"
  shows "distinct (map (\<lambda>u. (u_taskId u, u_label u)) us)"
  using assms
proof (induction ts arbitrary: us)
  case Nil then show ?case by simp
next
  case (Cons t ts)
  then obtain a b where ab: "taskUnits sc block t = Some a" "expandTasks sc block ts = Some b" "us = a @ b"
    by (auto split: option.splits)
  have da: "distinct (map (\<lambda>u. (u_taskId u, u_label u)) a)" using ab(1) by (rule taskUnits_keys_distinct)
  have db: "distinct (map (\<lambda>u. (u_taskId u, u_label u)) b)" using Cons.IH [OF _ ab(2)] Cons.prems(1) by simp
  have "u_taskId x \<noteq> u_taskId y" if "x \<in> set a" "y \<in> set b" for x y
  proof -
    have "u_taskId x = t_id t" using taskUnits_taskId [OF ab(1) that(1)] .
    moreover have "u_taskId y \<in> t_id ` set ts" using expandTasks_taskId [OF ab(2) that(2)] .
    ultimately show ?thesis using Cons.prems(1) by auto
  qed
  then have "set (map (\<lambda>u. (u_taskId u, u_label u)) a) \<inter> set (map (\<lambda>u. (u_taskId u, u_label u)) b) = {}"
    by auto
  with da db show ?case unfolding ab(3) by simp
qed

lemma sortUnits_keys_distinct:
  assumes "distinct (map (\<lambda>u. (u_taskId u, u_label u)) us)"
  shows "distinct (map (\<lambda>u. (u_taskId u, u_label u)) (sortUnits us))"
proof -
  have "mset (map (\<lambda>u. (u_taskId u, u_label u)) (sortUnits us)) = mset (map (\<lambda>u. (u_taskId u, u_label u)) us)"
    by (simp add: sortUnits_def)
  then show ?thesis using assms by (metis mset_eq_imp_distinct_iff)
qed

lemma placeOnDay_matches:
  assumes "firstFit (u_mins u) (free st day) \<noteq> None"
  shows "list_ex (\<lambda>p. p_taskId p = Some (u_taskId u) \<and> p_label p = Some (u_label u))
           (planned (placeOnDay rnd u day st))"
proof (cases rule: placeOnDay_cases [of u st day rnd])
  case none
  with assms show ?thesis by simp
next
  case (some pre s post)
  show ?thesis unfolding some(5) by (simp add: list_ex_iff)
qed

text \<open>A unit none of whose blocks is planned yet goes to the first day that takes it.\<close>

lemma placeUnit_nowhere:
  assumes "\<not> list_ex (\<lambda>p. p_taskId p = Some (u_taskId u) \<and> p_label p = Some (u_label u)) (planned st)"
    and "\<forall>d \<in> set days. cap \<le> dailyCount st d \<or> firstFit (u_mins u) (free st d) = None"
  shows "placeUnit rnd cap u days st = st"
  using assms(2)
proof (induction days)
  case Nil then show ?case by simp
next
  case (Cons day days)
  show ?case
  proof (cases "cap \<le> dailyCount st day")
    case True
    with Cons show ?thesis by simp
  next
    case False
    with Cons.prems have "firstFit (u_mins u) (free st day) = None" by simp
    then have "placeOnDay rnd u day st = st" by (rule placeOnDay_None)
    with False assms(1) Cons show ?thesis by (simp add: Let_def)
  qed
qed

lemma placeUnit_first_day:
  assumes "\<not> list_ex (\<lambda>p. p_taskId p = Some (u_taskId u) \<and> p_label p = Some (u_label u)) (planned st)"
    and "\<forall>d \<in> set pre. cap \<le> dailyCount st d \<or> firstFit (u_mins u) (free st d) = None"
    and "dailyCount st day < cap" "firstFit (u_mins u) (free st day) \<noteq> None"
  shows "placeUnit rnd cap u (pre @ day # post) st = placeOnDay rnd u day st"
  using assms(2)
proof (induction pre)
  case Nil
  from placeOnDay_matches [OF assms(4), of rnd] assms(3) show ?case by (simp add: Let_def)
next
  case (Cons d pre)
  show ?case
  proof (cases "cap \<le> dailyCount st d")
    case True
    with Cons show ?thesis by simp
  next
    case False
    with Cons.prems have "firstFit (u_mins u) (free st d) = None" by simp
    then have "placeOnDay rnd u d st = st" by (rule placeOnDay_None)
    with False assms(1) Cons show ?thesis by (simp add: Let_def)
  qed
qed

lemma placeUnit_at_most_one:
  "length (planned (placeUnit rnd cap u days st)) \<le> Suc (length (planned st))"
proof (induction days)
  case Nil then show ?case by simp
next
  case (Cons day days)
  show ?case
  proof (cases "cap \<le> dailyCount st day")
    case True
    with Cons show ?thesis by simp
  next
    case False
    show ?thesis
    proof (cases rule: placeOnDay_cases [of u st day rnd])
      case none
      with False Cons show ?thesis by (simp add: Let_def)
    next
      case (some pre s post)
      have "firstFit (u_mins u) (free st day) \<noteq> None" using some(2) by simp
      from placeOnDay_matches [OF this, of rnd] False
      have "placeUnit rnd cap u (day # days) st = placeOnDay rnd u day st" by (simp add: Let_def)
      then show ?thesis unfolding some(5) by simp
    qed
  qed
qed

lemma DAYS_split: "DAYS = take (dayIndex d) DAYS @ d # drop (Suc (dayIndex d)) DAYS"
  by (cases d) (simp_all add: DAYS_def)

lemma DAYS_before: "d' \<in> set (take (dayIndex d) DAYS) \<longleftrightarrow> dayIndex d' < dayIndex d"
  by (cases d; cases d') (simp_all add: DAYS_def)

lemma DAYS_all: "d \<in> set DAYS"
  by (cases d) (simp_all add: DAYS_def)

lemma placeAll_snoc:
  "placeAll rnd cap (units @ [u]) st = placeUnit rnd cap u DAYS (placeAll rnd cap units st)"
  by (simp add: placeAll_def)

text \<open>No block of a unit is planned before the unit's turn, when the units differ in task or label.\<close>

lemma unit_fresh:
  assumes d: "distinct (map (\<lambda>u. (u_taskId u, u_label u)) units)" and k: "k < length units"
    and m: "\<forall>u \<in> set units. 0 \<le> u_mins u"
  shows "\<not> list_ex (\<lambda>p. p_taskId p = Some (u_taskId (units ! k)) \<and> p_label p = Some (u_label (units ! k)))
           (planned (placeAll rnd cap (take k units) (initialState prefs busy)))"
proof
  let ?st = "placeAll rnd cap (take k units) (initialState prefs busy)"
  assume "list_ex (\<lambda>p. p_taskId p = Some (u_taskId (units ! k)) \<and> p_label p = Some (u_label (units ! k)))
           (planned ?st)"
  then obtain p where p: "p \<in> set (planned ?st)" "p_taskId p = Some (u_taskId (units ! k))"
    "p_label p = Some (u_label (units ! k))" by (auto simp: list_ex_iff)
  have "placedInv (buildFreeGrid prefs busy) (set (take k units)) cap ?st"
    by (rule placeAll_placedInv [OF initial_placedInv]) (use m in \<open>auto dest: in_set_takeD\<close>)
  with p(1) obtain v where v: "v \<in> set (take k units)" "p_taskId p = Some (u_taskId v)"
    "p_label p = Some (u_label v)" unfolding placedInv_def by blast
  from v(1) obtain i where i: "i < k" "i < length units" "units ! i = v"
    by (auto simp: in_set_conv_nth)
  from v(2,3) p(2,3) i(3) have "(\<lambda>u. (u_taskId u, u_label u)) (units ! i) = (\<lambda>u. (u_taskId u, u_label u)) (units ! k)"
    by simp
  then have "map (\<lambda>u. (u_taskId u, u_label u)) units ! i = map (\<lambda>u. (u_taskId u, u_label u)) units ! k"
    using i(2) k by simp
  moreover have "i < length (map (\<lambda>u. (u_taskId u, u_label u)) units)"
    "k < length (map (\<lambda>u. (u_taskId u, u_label u)) units)" using i(2) k by simp_all
  ultimately have "i = k" using d by (simp only: nth_eq_iff_index_eq)
  with i(1) show False by simp
qed

text \<open>
  For distinct task ids, at the turn of the \<open>k\<close>-th sorted unit \<open>u\<close> in the state \<open>st\<close>: call a
  day available when it has not reached \<open>maxBlocksPerDay\<close> and one of its free intervals is at
  least as long as \<open>u\<close>. If no day is available, the state is unchanged. Otherwise \<open>u\<close> is
  placed on the first available day in the order of \<open>DAYS\<close>, at the start of the first
  interval of that day's list that is long enough, and exactly that block is added. At most
  one block is added. The list of a day is in ascending order of start when no busy block
  ends before it starts.
\<close>

lemma placeUnit_first_fit:
  fixes rnd :: "nat \<Rightarrow> string \<times> string" and sc :: "Task \<Rightarrow> real" and prefs :: Preferences
    and busy :: "BusyBlock list" and ts :: "Task list" and us :: "WorkUnit list" and k :: nat
  defines "units \<equiv> sortUnits us"
  defines "cap \<equiv> maxBlocksPerDay prefs"
  defines "st \<equiv> placeAll rnd cap (take k units) (initialState prefs busy)"
  defines "u \<equiv> units ! k"
  defines "st' \<equiv> placeUnit rnd cap u DAYS st"
  defines "avail \<equiv> \<lambda>d. dailyCount st d < cap \<and> (\<exists>s \<in> set (free st d). u_mins u \<le> s_end s - s_start s)"
  assumes ids: "distinct (map t_id ts)"
    and us: "expandTasks sc (workBlockMins prefs) ts = Some us"
    and k: "k < length us"
  shows "placeAll rnd cap (take (Suc k) units) (initialState prefs busy) = st'
    \<and> ((\<forall>d. \<not> avail d) \<longrightarrow> st' = st)
    \<and> (\<forall>d. avail d \<and> (\<forall>d'. dayIndex d' < dayIndex d \<longrightarrow> \<not> avail d') \<longrightarrow>
          (\<exists>si < length (free st d).
               u_mins u \<le> s_end (free st d ! si) - s_start (free st d ! si)
             \<and> (\<forall>j < si. \<not> u_mins u \<le> s_end (free st d ! j) - s_start (free st d ! j))
             \<and> planned st' = planned st @
                  [\<lparr>p_id = uid ''plan'' (rnd (length (planned st))), p_day = d,
                    p_startMin = s_start (free st d ! si),
                    p_endMin = s_start (free st d ! si) + u_mins u, p_type = ''plan'',
                    p_taskId = Some (u_taskId u), p_label = Some (u_label u)\<rparr>]))
    \<and> length (planned st') \<le> Suc (length (planned st))
    \<and> ((\<forall>b \<in> set busy. b_startMin b \<le> b_endMin b) \<longrightarrow> (\<forall>d. sorted (map s_start (free st d))))"
proof -
  have len: "length units = length us" by (simp add: units_def sortUnits_def)
  with k have k': "k < length units" by simp
  have mins: "\<forall>v \<in> set units. 0 \<le> u_mins v"
    using expandTasks_mins_ge [OF us] by (fastforce simp: units_def set_sortUnits)
  have dist: "distinct (map (\<lambda>u. (u_taskId u, u_label u)) units)"
    unfolding units_def
    by (rule sortUnits_keys_distinct [OF expandTasks_keys_distinct [OF ids us]])
  have fresh: "\<not> list_ex (\<lambda>p. p_taskId p = Some (u_taskId u) \<and> p_label p = Some (u_label u)) (planned st)"
    unfolding u_def st_def by (rule unit_fresh [OF dist k' mins])
  have av: "avail d \<longleftrightarrow> dailyCount st d < cap \<and> firstFit (u_mins u) (free st d) \<noteq> None" for d
    unfolding avail_def firstFit_None by auto
  have step: "placeAll rnd cap (take (Suc k) units) (initialState prefs busy) = st'"
    unfolding st'_def st_def u_def by (simp add: take_Suc_conv_app_nth [OF k'] placeAll_snoc)
  have nowhere: "st' = st" if "\<forall>d. \<not> avail d"
    unfolding st'_def
  proof (rule placeUnit_nowhere [OF fresh], rule ballI)
    fix d
    from that have "\<not> avail d" by simp
    then show "cap \<le> dailyCount st d \<or> firstFit (u_mins u) (free st d) = None"
      unfolding av by auto
  qed
  have first: "\<exists>si < length (free st d).
               u_mins u \<le> s_end (free st d ! si) - s_start (free st d ! si)
             \<and> (\<forall>j < si. \<not> u_mins u \<le> s_end (free st d ! j) - s_start (free st d ! j))
             \<and> planned st' = planned st @
                  [\<lparr>p_id = uid ''plan'' (rnd (length (planned st))), p_day = d,
                    p_startMin = s_start (free st d ! si),
                    p_endMin = s_start (free st d ! si) + u_mins u, p_type = ''plan'',
                    p_taskId = Some (u_taskId u), p_label = Some (u_label u)\<rparr>]"
    if a: "avail d \<and> (\<forall>d'. dayIndex d' < dayIndex d \<longrightarrow> \<not> avail d')" for d
  proof -
    from a have d: "dailyCount st d < cap" "firstFit (u_mins u) (free st d) \<noteq> None"
      unfolding av by simp_all
    have before: "\<forall>d' \<in> set (take (dayIndex d) DAYS).
        cap \<le> dailyCount st d' \<or> firstFit (u_mins u) (free st d') = None"
    proof
      fix d' assume "d' \<in> set (take (dayIndex d) DAYS)"
      then have "dayIndex d' < dayIndex d" by (simp only: DAYS_before)
      with a have "\<not> avail d'" by simp
      then show "cap \<le> dailyCount st d' \<or> firstFit (u_mins u) (free st d') = None"
        unfolding av by auto
    qed
    have "placeUnit rnd cap u (take (dayIndex d) DAYS @ d # drop (Suc (dayIndex d)) DAYS) st
        = placeOnDay rnd u d st"
      by (rule placeUnit_first_day [OF fresh before d])
    then have eq: "st' = placeOnDay rnd u d st"
      unfolding st'_def by (simp only: DAYS_split [symmetric])
    show ?thesis
    proof (cases rule: placeOnDay_cases [of u st d rnd])
      case none
      with d(2) show ?thesis by simp
    next
      case (some pre s post)
      have n: "free st d ! length pre = s" unfolding some(1) by simp
      have l: "length pre < length (free st d)" unfolding some(1) by simp
      have j: "\<forall>j < length pre. \<not> u_mins u \<le> s_end (free st d ! j) - s_start (free st d ! j)"
        using some(4) unfolding some(1) by (simp add: nth_append)
      have p: "planned st' = planned st @
                  [\<lparr>p_id = uid ''plan'' (rnd (length (planned st))), p_day = d,
                    p_startMin = s_start (free st d ! length pre),
                    p_endMin = s_start (free st d ! length pre) + u_mins u, p_type = ''plan'',
                    p_taskId = Some (u_taskId u), p_label = Some (u_label u)\<rparr>]"
        unfolding eq some(5) n by simp
      from l some(3) j p show ?thesis unfolding n [symmetric] by blast
    qed
  qed
  have one: "length (planned st') \<le> Suc (length (planned st))"
    unfolding st'_def by (rule placeUnit_at_most_one)
  have sorted: "\<forall>d. sorted (map s_start (free st d))" if wf: "\<forall>b \<in> set busy. b_startMin b \<le> b_endMin b"
  proof -
    have "disjointInv st" unfolding st_def
      by (rule placeAll_disjointInv [OF initial_disjointInv [OF wf]])
        (use mins in \<open>auto dest: in_set_takeD\<close>)
    then show ?thesis unfolding disjointInv_def by blast
  qed
  from step nowhere first one sorted show ?thesis by blast
qed

lemma example_units':
  "expandTasks exampleScore (workBlockMins examplePrefs) [exampleTask] = Some exampleUnits"
  unfolding example_units exampleUnits_def ..

lemma example_sorted_units: "sortUnits exampleUnits = exampleUnits"
  by (simp add: sortUnits_def exampleUnits_def)

lemma exampleMid_values:
  "free exampleMid Mon = [\<lparr>s_start = 410, s_end = 540\<rparr>, \<lparr>s_start = 600, s_end = 1320\<rparr>]"
  "dailyCount exampleMid Mon = 1"
  "map (\<lambda>p. (p_day p, p_startMin p, p_endMin p)) (planned exampleMid) = [(Mon, 360, 410)]"
  unfolding exampleMid_def example_sorted_units
  by (simp_all add: exampleUnits_def placeAll_def initialState_def
      buildFreeGrid_def subtractBusy_def cutDay_def cutSlot_def placeOnDay_def DAYS_def uid_def Let_def
      examplePrefs_def busyClass_def exampleRnd_def decimal.simps)

lemma placeUnit_first_fit_witness:
  "distinct (map t_id [exampleTask])
   \<and> expandTasks exampleScore (workBlockMins examplePrefs) [exampleTask] = Some exampleUnits
   \<and> 1 < length exampleUnits
   \<and> dailyCount exampleMid Mon < maxBlocksPerDay examplePrefs
   \<and> free exampleMid Mon = [\<lparr>s_start = 410, s_end = 540\<rparr>, \<lparr>s_start = 600, s_end = 1320\<rparr>]
   \<and> u_mins (sortUnits exampleUnits ! 1) = 50
   \<and> planned (placeAll exampleRnd (maxBlocksPerDay examplePrefs) (take (Suc 1) (sortUnits exampleUnits))
        (initialState examplePrefs [busyClass]))
      = planned exampleMid @
          [\<lparr>p_id = uid ''plan'' (exampleRnd (length (planned exampleMid))), p_day = Mon,
            p_startMin = 410, p_endMin = 460, p_type = ''plan'',
            p_taskId = Some ''t1'', p_label = Some ''Exam (Part 2/3)''\<rparr>]"
proof -
  let ?u = "sortUnits exampleUnits ! 1"
  let ?cap = "maxBlocksPerDay examplePrefs"
  let ?st' = "placeUnit exampleRnd ?cap ?u DAYS exampleMid"
  have ids: "distinct (map t_id [exampleTask])" by simp
  have k: "1 < length exampleUnits" by (simp add: exampleUnits_def)
  have u: "u_mins ?u = 50" "u_taskId ?u = ''t1''" "u_label ?u = ''Exam (Part 2/3)''"
    unfolding example_sorted_units by (simp_all add: exampleUnits_def)
  have c: "dailyCount exampleMid Mon < ?cap" by (simp add: exampleMid_values examplePrefs_def)
  note t = placeUnit_first_fit [OF ids example_units' k, of exampleRnd "[busyClass]",
      folded exampleMid_def]
  from t have step: "placeAll exampleRnd ?cap (take (Suc 1) (sortUnits exampleUnits))
        (initialState examplePrefs [busyClass]) = ?st'" by (rule conjunct1)
  have avail: "(dailyCount exampleMid Mon < ?cap
        \<and> (\<exists>s \<in> set (free exampleMid Mon). u_mins ?u \<le> s_end s - s_start s))
      \<and> (\<forall>d'. dayIndex d' < dayIndex Mon \<longrightarrow>
           \<not> (dailyCount exampleMid d' < ?cap
               \<and> (\<exists>s \<in> set (free exampleMid d'). u_mins ?u \<le> s_end s - s_start s)))"
    using c u by (simp add: exampleMid_values)
  from t [THEN conjunct2, THEN conjunct2, THEN conjunct1, rule_format, OF avail]
  obtain si where si: "si < length (free exampleMid Mon)"
    "\<forall>j < si. \<not> u_mins ?u \<le> s_end (free exampleMid Mon ! j) - s_start (free exampleMid Mon ! j)"
    "planned ?st' = planned exampleMid @
        [\<lparr>p_id = uid ''plan'' (exampleRnd (length (planned exampleMid))), p_day = Mon,
          p_startMin = s_start (free exampleMid Mon ! si),
          p_endMin = s_start (free exampleMid Mon ! si) + u_mins ?u, p_type = ''plan'',
          p_taskId = Some (u_taskId ?u), p_label = Some (u_label ?u)\<rparr>]"
    by blast
  have "si = 0"
  proof (rule ccontr)
    assume "si \<noteq> 0"
    then have "0 < si" by simp
    with si(2) have "\<not> u_mins ?u \<le> s_end (free exampleMid Mon ! 0) - s_start (free exampleMid Mon ! 0)"
      by blast
    then show False using u by (simp add: exampleMid_values)
  qed
  with si(3) have "planned ?st' = planned exampleMid @
        [\<lparr>p_id = uid ''plan'' (exampleRnd (length (planned exampleMid))), p_day = Mon,
          p_startMin = 410, p_endMin = 460, p_type = ''plan'',
          p_taskId = Some ''t1'', p_label = Some ''Exam (Part 2/3)''\<rparr>]"
    using u by (simp add: exampleMid_values)
  with ids example_units' k c exampleMid_values(1) u(1) step show ?thesis by simp
qed

subsection \<open>Busy blocks that end before they start\<close>

lemmas grid_defs = buildFreeGrid_def subtractBusy_def cutDay_def cutSlot_def Let_def

lemmas place_defs = sortUnits_def sortPlanned_def placeAll_def initialState_def placeOnDay_def DAYS_def
  uid_def decimal.simps

text \<open>
  Claim C6 fails on the code for a busy block that ends before it starts: \<open>cutSlot\<close> then
  leaves two overlapping slots, and a second block cuts both or neither according to the
  order. With the blocks Mon 500 to 400 and Mon 450 to 460 the two orders give different grids.
\<close>

theorem buildFreeGrid_order_inverted_busy:
  "mset [wideInverted, shortBusy] = mset [shortBusy, wideInverted]
   \<and> buildFreeGrid examplePrefs [wideInverted, shortBusy] Mon =
        [\<lparr>s_start = 360, s_end = 450\<rparr>, \<lparr>s_start = 400, s_end = 450\<rparr>,
         \<lparr>s_start = 460, s_end = 500\<rparr>, \<lparr>s_start = 460, s_end = 1320\<rparr>]
   \<and> buildFreeGrid examplePrefs [shortBusy, wideInverted] Mon =
        [\<lparr>s_start = 360, s_end = 450\<rparr>, \<lparr>s_start = 460, s_end = 1320\<rparr>]
   \<and> buildFreeGrid examplePrefs [wideInverted, shortBusy] \<noteq> buildFreeGrid examplePrefs [shortBusy, wideInverted]"
proof -
  have m: "mset [wideInverted, shortBusy] = mset [shortBusy, wideInverted]" by simp
  have a: "buildFreeGrid examplePrefs [wideInverted, shortBusy] Mon =
        [\<lparr>s_start = 360, s_end = 450\<rparr>, \<lparr>s_start = 400, s_end = 450\<rparr>,
         \<lparr>s_start = 460, s_end = 500\<rparr>, \<lparr>s_start = 460, s_end = 1320\<rparr>]"
    by (simp add: grid_defs examplePrefs_def wideInverted_def shortBusy_def)
  have b: "buildFreeGrid examplePrefs [shortBusy, wideInverted] Mon =
        [\<lparr>s_start = 360, s_end = 450\<rparr>, \<lparr>s_start = 460, s_end = 1320\<rparr>]"
    by (simp add: grid_defs examplePrefs_def wideInverted_def shortBusy_def)
  have "buildFreeGrid examplePrefs [wideInverted, shortBusy] Mon
      \<noteq> buildFreeGrid examplePrefs [shortBusy, wideInverted] Mon"
    unfolding a b by simp
  then have n: "buildFreeGrid examplePrefs [wideInverted, shortBusy]
      \<noteq> buildFreeGrid examplePrefs [shortBusy, wideInverted]"
    by (rule contrapos_nn) (rule arg_cong [where f = "\<lambda>g. g Mon"])
  show ?thesis by (intro conjI m a b n)
qed

text \<open>
  Claim C2 fails on the code for a busy block that ends before it starts: with the block Mon
  420 to 400 the grid of Monday is the overlapping slots 360 to 420 and 400 to 1320, and the
  first two planned blocks, 360 to 410 and 400 to 450, share the minutes 400 to 410.
\<close>

theorem autoPlan_overlap_inverted_busy:
  "map_option (map (\<lambda>p. (p_day p, p_startMin p, p_endMin p)))
      (autoPlan exampleRnd exampleScore examplePrefs [invertedBusy] [exampleTask])
     = Some [(Mon, 360, 410), (Mon, 400, 450), (Mon, 450, 480)]
   \<and> buildFreeGrid examplePrefs [invertedBusy] Mon =
        [\<lparr>s_start = 360, s_end = 420\<rparr>, \<lparr>s_start = 400, s_end = 1320\<rparr>]
   \<and> {360 ..< 410} \<inter> {400 ..< 450} = {400 ..< (410::int)}"
proof -
  have a: "map_option (map (\<lambda>p. (p_day p, p_startMin p, p_endMin p)))
      (autoPlan exampleRnd exampleScore examplePrefs [invertedBusy] [exampleTask])
     = Some [(Mon, 360, 410), (Mon, 400, 450), (Mon, 450, 480)]"
    unfolding autoPlan_def example_units
    by (simp add: place_defs grid_defs examplePrefs_def invertedBusy_def exampleRnd_def)
  have b: "buildFreeGrid examplePrefs [invertedBusy] Mon =
        [\<lparr>s_start = 360, s_end = 420\<rparr>, \<lparr>s_start = 400, s_end = 1320\<rparr>]"
    by (simp add: grid_defs examplePrefs_def invertedBusy_def)
  have c: "{360 ..< 410} \<inter> {400 ..< 450} = {400 ..< (410::int)}" by auto
  show ?thesis by (intro conjI a b c)
qed

text \<open>
  Claim C3 fails on the code for a busy block that ends before it starts: with the block Mon
  1260 to 420 the list of Monday is, at the turn of the third unit, the slot 460 to 1260 followed
  by the slot 420 to 1320, not in ascending order of start; the unit of 30 minutes is placed at
  460, in the first slot of the list, although the slot that starts at 420 is long enough.
\<close>

theorem placeUnit_not_first_inverted_busy:
  "distinct (map t_id [exampleTask])
   \<and> expandTasks exampleScore (workBlockMins examplePrefs) [exampleTask] = Some exampleUnits
   \<and> u_mins (sortUnits exampleUnits ! 2) = 30
   \<and> free (placeAll exampleRnd (maxBlocksPerDay examplePrefs) (take 2 (sortUnits exampleUnits))
              (initialState examplePrefs [lateInverted])) Mon
       = [\<lparr>s_start = 460, s_end = 1260\<rparr>, \<lparr>s_start = 420, s_end = 1320\<rparr>]
   \<and> \<not> sorted (map s_start
         (free (placeAll exampleRnd (maxBlocksPerDay examplePrefs) (take 2 (sortUnits exampleUnits))
              (initialState examplePrefs [lateInverted])) Mon))
   \<and> map (\<lambda>p. (p_day p, p_startMin p, p_endMin p))
        (planned (placeAll exampleRnd (maxBlocksPerDay examplePrefs) (take 3 (sortUnits exampleUnits))
              (initialState examplePrefs [lateInverted])))
       = [(Mon, 360, 410), (Mon, 410, 460), (Mon, 460, 490)]"
proof -
  have i: "distinct (map t_id [exampleTask])" by simp
  have u: "u_mins (sortUnits exampleUnits ! 2) = 30"
    unfolding example_sorted_units by (simp add: exampleUnits_def)
  have f: "free (placeAll exampleRnd (maxBlocksPerDay examplePrefs) (take 2 (sortUnits exampleUnits))
              (initialState examplePrefs [lateInverted])) Mon
       = [\<lparr>s_start = 460, s_end = 1260\<rparr>, \<lparr>s_start = 420, s_end = 1320\<rparr>]"
    unfolding example_sorted_units
    by (simp add: exampleUnits_def place_defs grid_defs examplePrefs_def lateInverted_def exampleRnd_def)
  have p: "map (\<lambda>p. (p_day p, p_startMin p, p_endMin p))
        (planned (placeAll exampleRnd (maxBlocksPerDay examplePrefs) (take 3 (sortUnits exampleUnits))
              (initialState examplePrefs [lateInverted])))
       = [(Mon, 360, 410), (Mon, 410, 460), (Mon, 460, 490)]"
    unfolding example_sorted_units
    by (simp add: exampleUnits_def place_defs grid_defs examplePrefs_def lateInverted_def exampleRnd_def)
  have n: "\<not> sorted (map s_start
         (free (placeAll exampleRnd (maxBlocksPerDay examplePrefs) (take 2 (sortUnits exampleUnits))
              (initialState examplePrefs [lateInverted])) Mon))"
    unfolding f by simp
  show ?thesis by (intro conjI i example_units' u f n p)
qed

end
